theory Spec2Isabelle
  imports
    Complex_Main
    "HOL-Library.Sublist"
    "HOL-Library.List_Lexorder"
    "HOL-Library.Char_ord"
    "HOL-Library.Monad_Syntax"
    "HOL-Library.Multiset"
begin

section \<open>The trip service of \<open>src/app/main.py\<close>\<close>

text \<open>
  The service keeps one module-level list, \<open>trips_db\<close>, of \<open>Trip\<close> objects and
  serves it through ten handlers. Each handler is modelled as a function from
  its arguments and the list to its result and the list afterwards; an
  exception is a value of \<open>error\<close>. The two sources of nondeterminism, the
  identifier of \<open>uuid.uuid4()\<close> and the time of \<open>get_current_time()\<close>, are
  arguments of the handlers.

  Strings are Python \<open>str\<close> values in their UTF-8 encoding: substring tests and
  comparisons of such byte sequences agree with those on code points. The two
  \<open>float\<close> fields carry their exact rational value (every finite double has
  one, and doubles compare as their values do); not-a-number and the
  infinities are not values of the model.
\<close>

subsection \<open>Data\<close>

datatype error =
    NotFound                 \<comment> \<open>\<open>HTTPException(404)\<close>\<close>
  | RequestValidationError   \<comment> \<open>the framework rejects the request body before the handler runs (422)\<close>
  | ValidationError          \<comment> \<open>\<open>Trip(**d)\<close> raises inside a handler\<close>
  | TypeError                \<comment> \<open>\<open><\<close> between objects that have no order\<close>
  | ValueError               \<comment> \<open>\<open>min\<close> or \<open>max\<close> of an empty list\<close>
  | ZeroDivisionError
  | OverflowError            \<comment> \<open>integer division result too large for a float\<close>

datatype pyval =
    PNone
  | PBool bool
  | PInt int
  | PFloat rat
  | PStr string
  | PList "pyval list"
  | PDict "(string \<times> pyval) list"

record Trip =
  id' :: "string option"
  destination :: string
  country :: string
  travel_agency :: string
  duration_days :: int
  price :: rat
  rating :: rat
  group_size :: int
  created_at :: "string option"
  updated_at :: "string option"

text \<open>
  \<open>STATIC_TRIPS\<close>: the five seed entries, their strings in UTF-8, a float
  literal standing for its decimal value. The three optional fields are unset
  until \<open>initialize_database\<close> fills them.
\<close>

definition STATIC_TRIPS :: "Trip list" where
  "STATIC_TRIPS =
    [\<lparr>id' = None,
      destination = [CHR 0xD0, CHR 0x9F, CHR 0xD0, CHR 0xB0, CHR 0xD1, CHR 0x80, CHR 0xD0, CHR 0xB8, CHR 0xD0, CHR 0xB6],
      country = [CHR 0xD0, CHR 0xA4, CHR 0xD1, CHR 0x80, CHR 0xD0, CHR 0xB0, CHR 0xD0, CHR 0xBD, CHR 0xD1, CHR 0x86, CHR 0xD0, CHR 0xB8, CHR 0xD1, CHR 0x8F],
      travel_agency = [CHR 0xD0, CHR 0xA2, CHR 0xD1, CHR 0x83, CHR 0xD1, CHR 0x80, CHR 0xD0, CHR 0x9C, CHR 0xD0, CHR 0xB8, CHR 0xD1, CHR 0x80],
      duration_days = 7, price = 120000, rating = 48 / 10, group_size = 15,
      created_at = None, updated_at = None\<rparr>,
     \<lparr>id' = None,
      destination = [CHR 0xD0, CHR 0x91, CHR 0xD0, CHR 0xB0, CHR 0xD0, CHR 0xBB, CHR 0xD0, CHR 0xB8],
      country = [CHR 0xD0, CHR 0x98, CHR 0xD0, CHR 0xBD, CHR 0xD0, CHR 0xB4, CHR 0xD0, CHR 0xBE, CHR 0xD0, CHR 0xBD, CHR 0xD0, CHR 0xB5, CHR 0xD0, CHR 0xB7, CHR 0xD0, CHR 0xB8, CHR 0xD1, CHR 0x8F],
      travel_agency = [CHR 0xD0, CHR 0x90, CHR 0xD0, CHR 0xB7, CHR 0xD0, CHR 0xB8, CHR 0xD1, CHR 0x8F, CHR 0xD0, CHR 0xA2, CHR 0xD1, CHR 0x83, CHR 0xD1, CHR 0x80],
      duration_days = 10, price = 185000, rating = 46 / 10, group_size = 12,
      created_at = None, updated_at = None\<rparr>,
     \<lparr>id' = None,
      destination = [CHR 0xD0, CHR 0xA2, CHR 0xD0, CHR 0xBE, CHR 0xD0, CHR 0xBA, CHR 0xD0, CHR 0xB8, CHR 0xD0, CHR 0xBE],
      country = [CHR 0xD0, CHR 0xAF, CHR 0xD0, CHR 0xBF, CHR 0xD0, CHR 0xBE, CHR 0xD0, CHR 0xBD, CHR 0xD0, CHR 0xB8, CHR 0xD1, CHR 0x8F],
      travel_agency = [CHR 0xD0, CHR 0x92, CHR 0xD0, CHR 0xBE, CHR 0xD1, CHR 0x81, CHR 0xD1, CHR 0x82, CHR 0xD0, CHR 0xBE, CHR 0xD0, CHR 0xBA, CHR 0xD0, CHR 0xA2, CHR 0xD1, CHR 0x83, CHR 0xD1, CHR 0x80],
      duration_days = 8, price = 220000, rating = 49 / 10, group_size = 8,
      created_at = None, updated_at = None\<rparr>,
     \<lparr>id' = None,
      destination = [CHR 0xD0, CHR 0x9D, CHR 0xD1, CHR 0x8C, CHR 0xD1, CHR 0x8E, CHR 0x2D, CHR 0xD0, CHR 0x99, CHR 0xD0, CHR 0xBE, CHR 0xD1, CHR 0x80, CHR 0xD0, CHR 0xBA],
      country = [CHR 0xD0, CHR 0xA1, CHR 0xD0, CHR 0xA8, CHR 0xD0, CHR 0x90],
      travel_agency = [CHR 0xD0, CHR 0x90, CHR 0xD0, CHR 0xBC, CHR 0xD0, CHR 0xB5, CHR 0xD1, CHR 0x80, CHR 0xD0, CHR 0xB8, CHR 0xD0, CHR 0xBA, CHR 0xD0, CHR 0xB0, CHR 0xD0, CHR 0xA2, CHR 0xD1, CHR 0x83, CHR 0xD1, CHR 0x80],
      duration_days = 12, price = 250000, rating = 47 / 10, group_size = 20,
      created_at = None, updated_at = None\<rparr>,
     \<lparr>id' = None,
      destination = [CHR 0xD0, CHR 0x94, CHR 0xD1, CHR 0x83, CHR 0xD0, CHR 0xB1, CHR 0xD0, CHR 0xB0, CHR 0xD0, CHR 0xB9],
      country = [CHR 0xD0, CHR 0x9E, CHR 0xD0, CHR 0x90, CHR 0xD0, CHR 0xAD],
      travel_agency = [CHR 0xD0, CHR 0x92, CHR 0xD0, CHR 0xBE, CHR 0xD1, CHR 0x81, CHR 0xD1, CHR 0x82, CHR 0xD0, CHR 0xBE, CHR 0xD0, CHR 0xBA, CHR 0xD0, CHR 0xA2, CHR 0xD1, CHR 0x83, CHR 0xD1, CHR 0x80],
      duration_days = 9, price = 190000, rating = 45 / 10, group_size = 18,
      created_at = None, updated_at = None\<rparr>]"

subsection \<open>Lookup\<close>

text \<open>
  \<open>find_trip_by_id\<close> and \<open>find_trip_index\<close> scan the list from the front; the
  second counts positions as \<open>enumerate\<close> does and returns \<open>-1\<close> at the end.
\<close>

fun find_trip_by_id :: "Trip list \<Rightarrow> string \<Rightarrow> Trip option" where
  "find_trip_by_id [] trip_id = None"
| "find_trip_by_id (trip # rest) trip_id =
     (if id' trip = Some trip_id then Some trip else find_trip_by_id rest trip_id)"

fun find_trip_index_from :: "nat \<Rightarrow> Trip list \<Rightarrow> string \<Rightarrow> int" where
  "find_trip_index_from i [] trip_id = - 1"
| "find_trip_index_from i (trip # rest) trip_id =
     (if id' trip = Some trip_id then int i else find_trip_index_from (Suc i) rest trip_id)"

definition find_trip_index :: "Trip list \<Rightarrow> string \<Rightarrow> int" where
  "find_trip_index trips_db trip_id = find_trip_index_from 0 trips_db trip_id"

subsection \<open>Create, read, replace, delete\<close>

definition get_trip :: "string \<Rightarrow> Trip list \<Rightarrow> error + Trip" where
  "get_trip trip_id trips_db =
     (case find_trip_by_id trips_db trip_id of
        None \<Rightarrow> Inl NotFound
      | Some trip \<Rightarrow> Inr trip)"

definition create_trip :: "Trip \<Rightarrow> string \<Rightarrow> string \<Rightarrow> Trip list \<Rightarrow> Trip \<times> Trip list" where
  "create_trip trip trip_id now trips_db =
     (let trip = trip\<lparr>id' := Some trip_id, created_at := Some now, updated_at := Some now\<rparr>
      in (trip, trips_db @ [trip]))"

definition update_trip ::
  "string \<Rightarrow> Trip \<Rightarrow> string \<Rightarrow> Trip list \<Rightarrow> (error + Trip) \<times> Trip list" where
  "update_trip trip_id updated_trip now trips_db =
     (let trip_index = find_trip_index trips_db trip_id in
      if trip_index = - 1 then (Inl NotFound, trips_db)
      else
        let original_trip = trips_db ! nat trip_index;
            updated_trip = updated_trip\<lparr>id' := Some trip_id,
                                        created_at := created_at original_trip,
                                        updated_at := Some now\<rparr>
        in (Inr updated_trip, trips_db[nat trip_index := updated_trip]))"

definition delete_trip :: "string \<Rightarrow> Trip list \<Rightarrow> (error + Trip) \<times> Trip list" where
  "delete_trip trip_id trips_db =
     (let trip_index = find_trip_index trips_db trip_id in
      if trip_index = - 1 then (Inl NotFound, trips_db)
      else
        let deleted_trip = trips_db ! nat trip_index
        in (Inr deleted_trip, take (nat trip_index) trips_db @ drop (Suc (nat trip_index)) trips_db))"

text \<open>A store of two records, built by two calls of \<open>create_trip\<close>, for the examples.\<close>

definition two_trips :: "Trip list" where
  "two_trips =
     snd (create_trip (STATIC_TRIPS ! 1) ''b'' ''2024-01-02T10:00:00''
       (snd (create_trip (STATIC_TRIPS ! 0) ''a'' ''2024-01-01T10:00:00'' [])))"

subsection \<open>Validation by the model class\<close>

text \<open>
  \<open>Trip(**d)\<close> validates the value of every field against the declared type and
  raises when one of them fails. What each conversion accepts is decided by the
  validation library, which is not part of the repository, so the three
  conversions are a parameter \<open>V\<close>: \<open>None\<close> is a rejected value. A field that
  is \<open>Optional[str] = None\<close> may be missing or \<open>None\<close>; the seven others are
  required.
\<close>

record validators =
  as_str :: "pyval \<Rightarrow> string option"
  as_int :: "pyval \<Rightarrow> int option"
  as_float :: "pyval \<Rightarrow> rat option"

definition required :: "(pyval \<Rightarrow> 'a option) \<Rightarrow> pyval option \<Rightarrow> 'a option" where
  "required conv x = (case x of None \<Rightarrow> None | Some v \<Rightarrow> conv v)"

definition optional_str :: "validators \<Rightarrow> pyval option \<Rightarrow> string option option" where
  "optional_str V x =
     (case x of
        None \<Rightarrow> Some None
      | Some v \<Rightarrow> if v = PNone then Some None else map_option Some (as_str V v))"

definition Trip_validate :: "validators \<Rightarrow> (string \<rightharpoonup> pyval) \<Rightarrow> Trip option" where
  "Trip_validate V d =
     do {
       i \<leftarrow> optional_str V (d ''id'');
       dest \<leftarrow> required (as_str V) (d ''destination'');
       ctry \<leftarrow> required (as_str V) (d ''country'');
       agency \<leftarrow> required (as_str V) (d ''travel_agency'');
       days \<leftarrow> required (as_int V) (d ''duration_days'');
       pr \<leftarrow> required (as_float V) (d ''price'');
       rt \<leftarrow> required (as_float V) (d ''rating'');
       gs \<leftarrow> required (as_int V) (d ''group_size'');
       c \<leftarrow> optional_str V (d ''created_at'');
       u \<leftarrow> optional_str V (d ''updated_at'');
       Some \<lparr>id' = i, destination = dest, country = ctry, travel_agency = agency,
             duration_days = days, price = pr, rating = rt, group_size = gs,
             created_at = c, updated_at = u\<rparr>
     }"

definition Trip_init :: "validators \<Rightarrow> (string \<rightharpoonup> pyval) \<Rightarrow> error + Trip" where
  "Trip_init V d = (case Trip_validate V d of None \<Rightarrow> Inl ValidationError | Some trip \<Rightarrow> Inr trip)"

text \<open>\<open>trip.dict()\<close>: the ten fields by name.\<close>

definition opt_val :: "string option \<Rightarrow> pyval" where
  "opt_val x = (case x of None \<Rightarrow> PNone | Some s \<Rightarrow> PStr s)"

definition Trip_dict :: "Trip \<Rightarrow> (string \<rightharpoonup> pyval)" where
  "Trip_dict t =
     [''id'' \<mapsto> opt_val (id' t),
      ''destination'' \<mapsto> PStr (destination t),
      ''country'' \<mapsto> PStr (country t),
      ''travel_agency'' \<mapsto> PStr (travel_agency t),
      ''duration_days'' \<mapsto> PInt (duration_days t),
      ''price'' \<mapsto> PFloat (price t),
      ''rating'' \<mapsto> PFloat (rating t),
      ''group_size'' \<mapsto> PInt (group_size t),
      ''created_at'' \<mapsto> opt_val (created_at t),
      ''updated_at'' \<mapsto> opt_val (updated_at t)]"

subsection \<open>Partial update\<close>

text \<open>
  \<open>trip_update\<close> is the request's JSON object, given as the list of its items in
  iteration order. The loop of \<open>patch_trip\<close> writes an item into \<open>trip_dict\<close> when
  its key is already there and is neither \<open>id\<close> nor \<open>created_at\<close>.
\<close>

fun patch_loop :: "(string \<times> pyval) list \<Rightarrow> (string \<rightharpoonup> pyval) \<Rightarrow> (string \<rightharpoonup> pyval)" where
  "patch_loop [] trip_dict = trip_dict"
| "patch_loop ((key, val) # items) trip_dict =
     patch_loop items
       (if trip_dict key \<noteq> None \<and> key \<notin> set [''id'', ''created_at'']
        then trip_dict(key \<mapsto> val) else trip_dict)"

definition patch_trip ::
  "validators \<Rightarrow> string \<Rightarrow> (string \<times> pyval) list \<Rightarrow> string \<Rightarrow> Trip list
     \<Rightarrow> (error + Trip) \<times> Trip list" where
  "patch_trip V trip_id trip_update now trips_db =
     (let trip_index = find_trip_index trips_db trip_id in
      if trip_index = - 1 then (Inl NotFound, trips_db)
      else
        let current_trip = trips_db ! nat trip_index;
            trip_dict = Trip_dict current_trip;
            trip_dict = patch_loop trip_update trip_dict;
            trip_dict = trip_dict(''updated_at'' \<mapsto> PStr now)
        in case Trip_init V trip_dict of
             Inl e \<Rightarrow> (Inl e, trips_db)
           | Inr updated_trip \<Rightarrow> (Inr updated_trip, trips_db[nat trip_index := updated_trip]))"

text \<open>
  The value a Python dict with the given items holds for a key: a later item for
  the same key replaces an earlier one.
\<close>

definition dict_get :: "(string \<times> pyval) list \<Rightarrow> string \<Rightarrow> pyval option" where
  "dict_get items key = map_of (rev items) key"

text \<open>
  The seven fields a client supplies, and the validated value of one of them as
  \<open>dict()\<close> shows it afterwards.
\<close>

definition data_fields :: "string list" where
  "data_fields = [''destination'', ''country'', ''travel_agency'', ''duration_days'',
                  ''price'', ''rating'', ''group_size'']"

definition validate_field :: "validators \<Rightarrow> string \<Rightarrow> pyval \<Rightarrow> pyval option" where
  "validate_field V key v =
     (if key \<in> set [''destination'', ''country'', ''travel_agency''] then map_option PStr (as_str V v)
      else if key \<in> set [''duration_days'', ''group_size''] then map_option PInt (as_int V v)
      else if key \<in> set [''price'', ''rating''] then map_option PFloat (as_float V v)
      else if key \<in> set [''id'', ''created_at'', ''updated_at'']
        then (if v = PNone then Some PNone else map_option PStr (as_str V v))
      else None)"

text \<open>
  Every version of the validation library keeps a value that already has the
  declared type. \<open>exact_validators\<close> accepts exactly those values, and an
  integer for a float; it serves the concrete evaluations below.
\<close>

definition accepts_own_types :: "validators \<Rightarrow> bool" where
  "accepts_own_types V \<longleftrightarrow>
     (\<forall>s. as_str V (PStr s) = Some s) \<and> (\<forall>i. as_int V (PInt i) = Some i)
     \<and> (\<forall>x. as_float V (PFloat x) = Some x)"

definition exact_validators :: validators where
  "exact_validators =
     \<lparr>as_str = (\<lambda>v. case v of PStr s \<Rightarrow> Some s | _ \<Rightarrow> None),
      as_int = (\<lambda>v. case v of PInt i \<Rightarrow> Some i | _ \<Rightarrow> None),
      as_float = (\<lambda>v. case v of PFloat x \<Rightarrow> Some x | PInt i \<Rightarrow> Some (of_int i) | _ \<Rightarrow> None)\<rparr>"

subsection \<open>Search\<close>

text \<open>
  \<open>search_trips\<close> applies up to five filters one after the other. A string filter
  is applied when it is truthy (present and not empty), a numeric one when it is
  not \<open>None\<close>. \<open>str.lower\<close> is the interpreter's and is a parameter.
\<close>

definition search_trips ::
  "(string \<Rightarrow> string) \<Rightarrow> string option \<Rightarrow> string option \<Rightarrow> rat option \<Rightarrow> rat option
     \<Rightarrow> rat option \<Rightarrow> Trip list \<Rightarrow> Trip list" where
  "search_trips lower dest ctry min_price max_price min_rating trips_db =
     (let results = trips_db;
          results = (case dest of
                       Some d \<Rightarrow> if d \<noteq> [] then [t \<leftarrow> results. sublist (lower d) (lower (destination t))]
                                 else results
                     | None \<Rightarrow> results);
          results = (case ctry of
                       Some c \<Rightarrow> if c \<noteq> [] then [t \<leftarrow> results. sublist (lower c) (lower (country t))]
                                 else results
                     | None \<Rightarrow> results);
          results = (case min_price of
                       Some p \<Rightarrow> [t \<leftarrow> results. price t \<ge> p]
                     | None \<Rightarrow> results);
          results = (case max_price of
                       Some p \<Rightarrow> [t \<leftarrow> results. price t \<le> p]
                     | None \<Rightarrow> results);
          results = (case min_rating of
                       Some r \<Rightarrow> [t \<leftarrow> results. rating t \<ge> r]
                     | None \<Rightarrow> results)
      in results)"

text \<open>
  The specification's reading of a search: a record matches when it satisfies
  every supplied filter.
\<close>

definition search_matches ::
  "(string \<Rightarrow> string) \<Rightarrow> string option \<Rightarrow> string option \<Rightarrow> rat option \<Rightarrow> rat option
     \<Rightarrow> rat option \<Rightarrow> Trip \<Rightarrow> bool" where
  "search_matches lower dest ctry min_price max_price min_rating t \<longleftrightarrow>
     (case dest of None \<Rightarrow> True | Some d \<Rightarrow> sublist (lower d) (lower (destination t)))
     \<and> (case ctry of None \<Rightarrow> True | Some c \<Rightarrow> sublist (lower c) (lower (country t)))
     \<and> (case min_price of None \<Rightarrow> True | Some p \<Rightarrow> p \<le> price t)
     \<and> (case max_price of None \<Rightarrow> True | Some p \<Rightarrow> price t \<le> p)
     \<and> (case min_rating of None \<Rightarrow> True | Some r \<Rightarrow> r \<le> rating t)"

text \<open>A lower-casing of the ASCII letters, for the concrete evaluations.\<close>

definition ascii_lower :: "string \<Rightarrow> string" where
  "ascii_lower s =
     map (\<lambda>c. if CHR ''A'' \<le> c \<and> c \<le> CHR ''Z'' then char_of (of_char c + (32 :: nat)) else c) s"

subsection \<open>Statistics\<close>

text \<open>
  \<open>min\<close> and \<open>max\<close> keep the first smallest and the first largest element and
  raise on an empty list. The sum of integers is exact. The arithmetic of floats
  is the interpreter's: the sum of a list of floats, the quotient of two floats,
  \<open>round(x, 2)\<close> and the rounding of a rational to the nearest float are
  parameters. The quotient of two integers is their exact quotient rounded to the
  nearest float, and raises when that lies beyond the largest float.
\<close>

record float_arith =
  nearest :: "rat \<Rightarrow> rat"
  fsum :: "rat list \<Rightarrow> rat"
  fdiv :: "rat \<Rightarrow> rat \<Rightarrow> rat"
  round2 :: "rat \<Rightarrow> rat"

fun py_min :: "'a::linorder list \<Rightarrow> error + 'a" where
  "py_min [] = Inl ValueError"
| "py_min (x # xs) = Inr (foldl (\<lambda>m v. if v < m then v else m) x xs)"

fun py_max :: "'a::linorder list \<Rightarrow> error + 'a" where
  "py_max [] = Inl ValueError"
| "py_max (x # xs) = Inr (foldl (\<lambda>m v. if m < v then v else m) x xs)"

definition int_truediv :: "float_arith \<Rightarrow> int \<Rightarrow> int \<Rightarrow> error + rat" where
  "int_truediv fa a b =
     (if b = 0 then Inl ZeroDivisionError
      else if 2 ^ 1024 - 2 ^ 970 \<le> \<bar>of_int a / of_int b :: rat\<bar> then Inl OverflowError
      else Inr (nearest fa (of_int a / of_int b)))"

definition float_truediv :: "float_arith \<Rightarrow> rat \<Rightarrow> int \<Rightarrow> error + rat" where
  "float_truediv fa x n =
     (if n = 0 then Inl ZeroDivisionError else Inr (fdiv fa x (nearest fa (of_int n))))"

record 'v field_statistics =
  min' :: 'v
  max' :: 'v
  average :: rat
  sum' :: 'v
  count :: nat

definition int_field_statistics :: "float_arith \<Rightarrow> int list \<Rightarrow> error + int field_statistics" where
  "int_field_statistics fa values =
     (case py_min values of Inl e \<Rightarrow> Inl e | Inr mn \<Rightarrow>
      case py_max values of Inl e \<Rightarrow> Inl e | Inr mx \<Rightarrow>
      case int_truediv fa (sum_list values) (int (length values)) of Inl e \<Rightarrow> Inl e | Inr q \<Rightarrow>
        Inr \<lparr>min' = mn, max' = mx, average = round2 fa q,
             sum' = sum_list values, count = length values\<rparr>)"

definition float_field_statistics :: "float_arith \<Rightarrow> rat list \<Rightarrow> error + rat field_statistics" where
  "float_field_statistics fa values =
     (case py_min values of Inl e \<Rightarrow> Inl e | Inr mn \<Rightarrow>
      case py_max values of Inl e \<Rightarrow> Inl e | Inr mx \<Rightarrow>
      case float_truediv fa (fsum fa values) (int (length values)) of Inl e \<Rightarrow> Inl e | Inr q \<Rightarrow>
        Inr \<lparr>min' = mn, max' = mx, average = round2 fa q,
             sum' = fsum fa values, count = length values\<rparr>)"

record statistics =
  of_duration_days :: "int field_statistics"
  of_price :: "rat field_statistics"
  of_rating :: "rat field_statistics"
  of_group_size :: "int field_statistics"

datatype stats_response =
    NoData nat                          \<comment> \<open>the message and \<open>trip_count\<close>\<close>
  | Statistics nat statistics string    \<comment> \<open>\<open>trip_count\<close>, \<open>statistics\<close>, \<open>calculated_at\<close>\<close>

definition get_statistics :: "float_arith \<Rightarrow> string \<Rightarrow> Trip list \<Rightarrow> error + stats_response" where
  "get_statistics fa now trips_db =
     (if trips_db = [] then Inr (NoData 0)
      else
        case int_field_statistics fa (map duration_days trips_db) of Inl e \<Rightarrow> Inl e | Inr dd \<Rightarrow>
        case float_field_statistics fa (map price trips_db) of Inl e \<Rightarrow> Inl e | Inr pr \<Rightarrow>
        case float_field_statistics fa (map rating trips_db) of Inl e \<Rightarrow> Inl e | Inr rt \<Rightarrow>
        case int_field_statistics fa (map group_size trips_db) of Inl e \<Rightarrow> Inl e | Inr gs \<Rightarrow>
          Inr (Statistics (length trips_db)
                 \<lparr>of_duration_days = dd, of_price = pr, of_rating = rt, of_group_size = gs\<rparr>
                 now))"


text \<open>Float arithmetic without rounding, for the concrete evaluations.\<close>

definition exact_arith :: float_arith where
  "exact_arith =
     \<lparr>nearest = (\<lambda>x. x), fsum = sum_list, fdiv = (\<lambda>x y. x / y),
      round2 = (\<lambda>x. of_int (round (x * 100)) / 100)\<rparr>"

subsection \<open>Listing with a sort\<close>

text \<open>
  \<open>getattr(x, sort_by)\<close> gives the value of a field, or an attribute that the
  object has from its class, or raises \<open>AttributeError\<close> (here \<open>None\<close>). The
  source itself calls the method \<open>dict\<close> of a \<open>Trip\<close>, so that name is an
  attribute; \<open>inherited\<close> tells which other names are attributes whose values
  have no order.
\<close>

datatype attr = ANone | AStr string | AInt int | AFloat rat | AMethod string

definition opt_attr :: "string option \<Rightarrow> attr" where
  "opt_attr x = (case x of None \<Rightarrow> ANone | Some s \<Rightarrow> AStr s)"

definition getattr_Trip :: "(string \<Rightarrow> bool) \<Rightarrow> Trip \<Rightarrow> string \<Rightarrow> attr option" where
  "getattr_Trip inherited x name =
     (if name = ''id'' then Some (opt_attr (id' x))
      else if name = ''destination'' then Some (AStr (destination x))
      else if name = ''country'' then Some (AStr (country x))
      else if name = ''travel_agency'' then Some (AStr (travel_agency x))
      else if name = ''duration_days'' then Some (AInt (duration_days x))
      else if name = ''price'' then Some (AFloat (price x))
      else if name = ''rating'' then Some (AFloat (rating x))
      else if name = ''group_size'' then Some (AInt (group_size x))
      else if name = ''created_at'' then Some (opt_attr (created_at x))
      else if name = ''updated_at'' then Some (opt_attr (updated_at x))
      else if name = ''dict'' \<or> inherited name then Some (AMethod name)
      else None)"

text \<open>
  \<open>list.sort(key=..., reverse=...)\<close> is stable in both directions. Numbers compare
  with numbers and strings with strings; any other comparison raises
  \<open>TypeError\<close>, and a list of two or more elements is never sorted without
  comparing each element with another.
\<close>

fun num_key :: "attr \<Rightarrow> rat option" where
  "num_key (AInt i) = Some (of_int i)"
| "num_key (AFloat x) = Some x"
| "num_key _ = None"

fun str_key :: "attr \<Rightarrow> string option" where
  "str_key (AStr s) = Some s"
| "str_key _ = None"

definition stable_sort :: "('a \<Rightarrow> 'k::linorder) \<Rightarrow> bool \<Rightarrow> 'a list \<Rightarrow> 'a list" where
  "stable_sort key reverse xs = (if reverse then rev (sort_key key (rev xs)) else sort_key key xs)"

definition list_sort :: "('a \<Rightarrow> attr) \<Rightarrow> bool \<Rightarrow> 'a list \<Rightarrow> error + 'a list" where
  "list_sort key reverse xs =
     (if length xs < 2 then Inr xs
      else if list_all (\<lambda>x. num_key (key x) \<noteq> None) xs
        then Inr (stable_sort (\<lambda>x. the (num_key (key x))) reverse xs)
      else if list_all (\<lambda>x. str_key (key x) \<noteq> None) xs
        then Inr (stable_sort (\<lambda>x. the (str_key (key x))) reverse xs)
      else Inl TypeError)"

definition get_all_trips ::
  "(string \<Rightarrow> bool) \<Rightarrow> string option \<Rightarrow> bool \<Rightarrow> Trip list \<Rightarrow> error + Trip list" where
  "get_all_trips inherited sort_by reverse trips_db =
     (let result = trips_db in
      case sort_by of
        None \<Rightarrow> Inr result
      | Some name \<Rightarrow>
          if name = [] then Inr result
          else if list_ex (\<lambda>x. getattr_Trip inherited x name = None) result then Inr result
          else list_sort (\<lambda>x. the (getattr_Trip inherited x name)) reverse result)"

subsection \<open>Routes\<close>

text \<open>
  The decorators register the routes in the order of the source file, and the
  framework serves a request by the first route whose method and path pattern
  both match. A pattern is a list of segments; a parameter \<open>{name}\<close> matches one
  non-empty segment.
\<close>

datatype http_method = GET | POST | PUT | PATCH | DELETE

datatype segment = Lit string | Param string

datatype endpoint =
    Root | Get_all_trips | Get_trip | Create_trip | Update_trip | Patch_trip
  | Delete_trip | Get_statistics | Search_trips | Health_check

definition routes :: "(http_method \<times> segment list \<times> endpoint) list" where
  "routes =
     [(GET, [Lit ''''], Root),
      (GET, [Lit ''trips''], Get_all_trips),
      (GET, [Lit ''trips'', Param ''trip_id''], Get_trip),
      (POST, [Lit ''trips''], Create_trip),
      (PUT, [Lit ''trips'', Param ''trip_id''], Update_trip),
      (PATCH, [Lit ''trips'', Param ''trip_id''], Patch_trip),
      (DELETE, [Lit ''trips'', Param ''trip_id''], Delete_trip),
      (GET, [Lit ''statistics''], Get_statistics),
      (GET, [Lit ''trips'', Lit ''search''], Search_trips),
      (GET, [Lit ''health''], Health_check)]"

fun split_on :: "char \<Rightarrow> string \<Rightarrow> string list" where
  "split_on c [] = [[]]"
| "split_on c (x # xs) =
     (if x = c then [] # split_on c xs
      else (case split_on c xs of [] \<Rightarrow> [[x]] | s # ss \<Rightarrow> (x # s) # ss))"

definition path_segments :: "string \<Rightarrow> string list option" where
  "path_segments path =
     (case path of [] \<Rightarrow> None
      | c # rest \<Rightarrow> if c = CHR ''/'' then Some (split_on CHR ''/'' rest) else None)"

fun match_path :: "segment list \<Rightarrow> string list \<Rightarrow> (string \<times> string) list option" where
  "match_path [] [] = Some []"
| "match_path (Lit s # ps) (x # xs) = (if s = x then match_path ps xs else None)"
| "match_path (Param n # ps) (x # xs) =
     (if x \<noteq> [] then map_option (\<lambda>params. (n, x) # params) (match_path ps xs) else None)"
| "match_path _ _ = None"

fun first_match ::
  "(http_method \<times> segment list \<times> endpoint) list \<Rightarrow> http_method \<Rightarrow> string list
     \<Rightarrow> (endpoint \<times> (string \<times> string) list) option" where
  "first_match [] meth segs = None"
| "first_match ((m, pattern, e) # rest) meth segs =
     (if m = meth then
        (case match_path pattern segs of
           Some params \<Rightarrow> Some (e, params)
         | None \<Rightarrow> first_match rest meth segs)
      else first_match rest meth segs)"

definition dispatch :: "http_method \<Rightarrow> string \<Rightarrow> (endpoint \<times> (string \<times> string) list) option" where
  "dispatch meth path =
     (case path_segments path of None \<Rightarrow> None | Some segs \<Rightarrow> first_match routes meth segs)"

subsection \<open>The service as a state machine\<close>

text \<open>
  The environment of a run: the sequence of identifiers that \<open>uuid.uuid4()\<close>
  returns, the sequence of times that \<open>get_current_time()\<close> returns, and the
  library behaviour the handlers depend on. The state is the list together with
  the number of identifiers and of clock readings taken so far.
\<close>

record world =
  uuid4 :: "nat \<Rightarrow> string"
  clock :: "nat \<Rightarrow> string"
  validation :: validators
  arith :: float_arith
  str_lower :: "string \<Rightarrow> string"
  inherited_attr :: "string \<Rightarrow> bool"

record state =
  trips_db :: "Trip list"
  uuid_calls :: nat
  clock_calls :: nat

definition initial_state :: state where
  "initial_state = \<lparr>trips_db = [], uuid_calls = 0, clock_calls = 0\<rparr>"

fun seed_loop :: "world \<Rightarrow> Trip list \<Rightarrow> state \<Rightarrow> state" where
  "seed_loop W [] s = s"
| "seed_loop W (trip_data # rest) s =
     (let trip_id = uuid4 W (uuid_calls s);
          now = clock W (clock_calls s);
          trip = trip_data\<lparr>id' := Some trip_id, created_at := Some now, updated_at := Some now\<rparr>
      in seed_loop W rest
           \<lparr>trips_db = trips_db s @ [trip],
            uuid_calls = Suc (uuid_calls s),
            clock_calls = Suc (clock_calls s)\<rparr>)"

definition initialize_database :: "world \<Rightarrow> state \<Rightarrow> state" where
  "initialize_database W s = seed_loop W STATIC_TRIPS (s\<lparr>trips_db := []\<rparr>)"

datatype request =
    StartupEvent
  | GetRoot
  | GetAllTrips "string option" bool
  | GetTrip string
  | PostTrip pyval
  | PutTrip string pyval
  | PatchTrip string pyval
  | DeleteTrip string
  | GetStatistics
  | SearchTrips "string option" "string option" "rat option" "rat option" "rat option"
  | HealthCheck

datatype response =
    Started
  | Info
  | TripList "Trip list"
  | OneTrip Trip
  | Deleted "string \<rightharpoonup> pyval"
  | Stats stats_response
  | Health nat

text \<open>
  A handler's parameter of type \<open>Trip\<close> is built by the framework from the JSON
  body, with the validation of the model class; a body that fails it never
  reaches the handler. A parameter of type \<open>dict\<close> takes any JSON object.
\<close>

definition body_Trip :: "validators \<Rightarrow> pyval \<Rightarrow> error + Trip" where
  "body_Trip V body =
     (case body of
        PDict items \<Rightarrow>
          (case Trip_validate V (dict_get items) of
             None \<Rightarrow> Inl RequestValidationError
           | Some trip \<Rightarrow> Inr trip)
      | _ \<Rightarrow> Inl RequestValidationError)"

definition tick :: "state \<Rightarrow> state" where
  "tick s = s\<lparr>clock_calls := Suc (clock_calls s)\<rparr>"

text \<open>
  One request. \<open>now\<close> is the next clock reading; it is consumed by a handler that
  calls \<open>get_current_time()\<close>, and by the registered exception handler when an
  \<open>HTTPException\<close> is raised.
\<close>

definition step :: "world \<Rightarrow> request \<Rightarrow> state \<Rightarrow> (error + response) \<times> state" where
  "step W req s =
     (let now = clock W (clock_calls s); db = trips_db s in
      case req of
        StartupEvent \<Rightarrow> (Inr Started, initialize_database W s)
      | GetRoot \<Rightarrow> (Inr Info, s)
      | GetAllTrips sort_by reverse \<Rightarrow>
          (case get_all_trips (inherited_attr W) sort_by reverse db of
             Inl e \<Rightarrow> (Inl e, s)
           | Inr result \<Rightarrow> (Inr (TripList result), s))
      | GetTrip trip_id \<Rightarrow>
          (case get_trip trip_id db of
             Inl e \<Rightarrow> (Inl e, tick s)
           | Inr trip \<Rightarrow> (Inr (OneTrip trip), s))
      | PostTrip body \<Rightarrow>
          (case body_Trip (validation W) body of
             Inl e \<Rightarrow> (Inl e, s)
           | Inr trip \<Rightarrow>
               (case create_trip trip (uuid4 W (uuid_calls s)) now db of
                  (created, db') \<Rightarrow>
                    (Inr (OneTrip created),
                     \<lparr>trips_db = db', uuid_calls = Suc (uuid_calls s),
                      clock_calls = Suc (clock_calls s)\<rparr>)))
      | PutTrip trip_id body \<Rightarrow>
          (case body_Trip (validation W) body of
             Inl e \<Rightarrow> (Inl e, s)
           | Inr trip \<Rightarrow>
               (case update_trip trip_id trip now db of
                  (Inl e, db') \<Rightarrow> (Inl e, tick (s\<lparr>trips_db := db'\<rparr>))
                | (Inr updated, db') \<Rightarrow> (Inr (OneTrip updated), tick (s\<lparr>trips_db := db'\<rparr>))))
      | PatchTrip trip_id body \<Rightarrow>
          (case body of
             PDict trip_update \<Rightarrow>
               (case patch_trip (validation W) trip_id trip_update now db of
                  (Inl e, db') \<Rightarrow> (Inl e, tick (s\<lparr>trips_db := db'\<rparr>))
                | (Inr updated, db') \<Rightarrow> (Inr (OneTrip updated), tick (s\<lparr>trips_db := db'\<rparr>)))
           | _ \<Rightarrow> (Inl RequestValidationError, s))
      | DeleteTrip trip_id \<Rightarrow>
          (case delete_trip trip_id db of
             (Inl e, db') \<Rightarrow> (Inl e, tick (s\<lparr>trips_db := db'\<rparr>))
           | (Inr deleted, db') \<Rightarrow> (Inr (Deleted (Trip_dict deleted)), s\<lparr>trips_db := db'\<rparr>))
      | GetStatistics \<Rightarrow>
          (case get_statistics (arith W) now db of
             Inl e \<Rightarrow> (Inl e, s)
           | Inr (NoData n) \<Rightarrow> (Inr (Stats (NoData n)), s)
           | Inr (Statistics n st calculated_at) \<Rightarrow>
               (Inr (Stats (Statistics n st calculated_at)), tick s))
      | SearchTrips dest ctry min_price max_price min_rating \<Rightarrow>
          (Inr (TripList (search_trips (str_lower W) dest ctry min_price max_price min_rating db)), s)
      | HealthCheck \<Rightarrow> (Inr (Health (length db)), tick s))"

fun run :: "world \<Rightarrow> request list \<Rightarrow> state \<Rightarrow> state" where
  "run W [] s = s"
| "run W (req # reqs) s = run W reqs (snd (step W req s))"

text \<open>
  What the invariants of the data model need from the environment: an identifier
  is never generated twice, the clock never runs backwards, and validation keeps
  values of the declared types.
\<close>

definition world_ok :: "world \<Rightarrow> bool" where
  "world_ok W \<longleftrightarrow> inj (uuid4 W) \<and> mono (clock W) \<and> accepts_own_types (validation W)"

definition store_inv :: "world \<Rightarrow> state \<Rightarrow> bool" where
  "store_inv W s \<longleftrightarrow>
     distinct (map id' (trips_db s))
     \<and> (\<forall>t \<in> set (trips_db s).
          (\<exists>n < uuid_calls s. id' t = Some (uuid4 W n))
          \<and> (\<exists>a b. a \<le> b \<and> b < clock_calls s
                \<and> created_at t = Some (clock W a) \<and> updated_at t = Some (clock W b)))"

text \<open>
  An environment for the concrete evaluations: the identifiers and the times
  are strings of one, two, three, ... equal characters, so no identifier repeats
  and the times increase.
\<close>

definition demo_world :: world where
  "demo_world =
     \<lparr>uuid4 = (\<lambda>n. replicate (Suc n) CHR ''u''),
      clock = (\<lambda>n. replicate (Suc n) CHR ''1''),
      validation = exact_validators,
      arith = exact_arith,
      str_lower = ascii_lower,
      inherited_attr = (\<lambda>name. name \<in> set [''json'', ''copy''])\<rparr>"

text \<open>
  One request relates the state before to the state after: the counters of the
  environment do not go down, and every record afterwards either continues a
  record from before (same id, same \<open>created_at\<close>) or carries an identifier
  generated during the request.
\<close>

definition kept_or_fresh :: "world \<Rightarrow> state \<Rightarrow> state \<Rightarrow> bool" where
  "kept_or_fresh W s s' \<longleftrightarrow>
     uuid_calls s \<le> uuid_calls s' \<and> clock_calls s \<le> clock_calls s'
     \<and> (\<forall>t' \<in> set (trips_db s').
          (\<exists>t \<in> set (trips_db s). id' t = id' t' \<and> created_at t = created_at t')
          \<or> (\<exists>n. uuid_calls s \<le> n \<and> n < uuid_calls s' \<and> id' t' = Some (uuid4 W n)))"

text \<open>
  A valid request body, and an environment whose clock is set back after its
  first reading (local time at the end of daylight saving time, or a corrected
  system clock).
\<close>

definition example_body :: pyval where
  "example_body =
     PDict [(''destination'', PStr ''Rome''), (''country'', PStr ''Italy''),
            (''travel_agency'', PStr ''Agency''), (''duration_days'', PInt 5),
            (''price'', PFloat 1000), (''rating'', PFloat (9 / 2)), (''group_size'', PInt 10)]"

definition stepped_back_world :: world where
  "stepped_back_world =
     demo_world\<lparr>clock := (\<lambda>n. if n = 0 then ''2024-10-27T02:30:00'' else ''2024-10-27T02:10:00'')\<rparr>"

section \<open>Properties\<close>

subsection \<open>The index search\<close>

lemma find_trip_index_from_absent:
  "(\<forall>t \<in> set db. id' t \<noteq> Some i) \<Longrightarrow> find_trip_index_from n db i = - 1"
  by (induction db arbitrary: n) auto

lemma find_trip_index_from_present:
  "\<exists>t \<in> set db. id' t = Some i \<Longrightarrow>
   \<exists>k < length db. find_trip_index_from n db i = int (n + k)
       \<and> id' (db ! k) = Some i \<and> (\<forall>j < k. id' (db ! j) \<noteq> Some i)"
proof (induction db arbitrary: n)
  case Nil
  then show ?case by simp
next
  case (Cons t db)
  show ?case
  proof (cases "id' t = Some i")
    case True
    then show ?thesis by (intro exI[of _ 0]) simp
  next
    case False
    with Cons.prems have "\<exists>t \<in> set db. id' t = Some i" by simp
    from Cons.IH[OF this, of "Suc n"] obtain k where k: "k < length db"
      "find_trip_index_from (Suc n) db i = int (Suc n + k)"
      "id' (db ! k) = Some i" "\<forall>j < k. id' (db ! j) \<noteq> Some i"
      by blast
    have "\<forall>j < Suc k. id' ((t # db) ! j) \<noteq> Some i"
      using False k(4) by (auto simp: less_Suc_eq_0_disj)
    with k False show ?thesis
      by (intro exI[of _ "Suc k"]) simp
  qed
qed

lemma find_trip_index_absent:
  "(\<forall>t \<in> set db. id' t \<noteq> Some i) \<Longrightarrow> find_trip_index db i = - 1"
  unfolding find_trip_index_def by (rule find_trip_index_from_absent)

lemma find_trip_index_present:
  assumes "\<exists>t \<in> set db. id' t = Some i"
  obtains k where "k < length db" "find_trip_index db i = int k"
    "id' (db ! k) = Some i" "\<forall>j < k. id' (db ! j) \<noteq> Some i"
  using find_trip_index_from_present[OF assms, of 0] unfolding find_trip_index_def by auto


subsection \<open>Full replacement\<close>

lemma two_trips_eq:
  "two_trips =
     [(STATIC_TRIPS ! 0)\<lparr>id' := Some ''a'', created_at := Some ''2024-01-01T10:00:00'',
                          updated_at := Some ''2024-01-01T10:00:00''\<rparr>,
      (STATIC_TRIPS ! 1)\<lparr>id' := Some ''b'', created_at := Some ''2024-01-02T10:00:00'',
                          updated_at := Some ''2024-01-02T10:00:00''\<rparr>]"
  by (simp add: two_trips_def create_trip_def Let_def)

text \<open>
  C2. When a record with id \<open>i\<close> is stored, \<open>update_trip i new now\<close> puts at the
  position \<open>k\<close> of the first such record a record \<open>r\<close> that has the id \<open>i\<close>, the
  \<open>created_at\<close> of the record it replaces, \<open>updated_at = now\<close>, and that is equal
  to the supplied record \<open>new\<close> in each of the seven other fields; the list keeps its
  length and every other position its record; \<open>r\<close> is returned. When no record
  has id \<open>i\<close> the call gives \<open>NotFound\<close> and the same list.
\<close>

theorem update_trip_replaces_in_place:
  "if (\<exists>t \<in> set db. id' t = Some i)
   then (\<exists>k r. k < length db \<and> id' (db ! k) = Some i \<and> (\<forall>j < k. id' (db ! j) \<noteq> Some i)
          \<and> update_trip i new now db = (Inr r, db[k := r])
          \<and> id' r = Some i \<and> created_at r = created_at (db ! k) \<and> updated_at r = Some now
          \<and> destination r = destination new \<and> country r = country new
          \<and> travel_agency r = travel_agency new \<and> duration_days r = duration_days new
          \<and> price r = price new \<and> rating r = rating new \<and> group_size r = group_size new
          \<and> length (db[k := r]) = length db
          \<and> db[k := r] ! k = r
          \<and> (\<forall>j < length db. j \<noteq> k \<longrightarrow> db[k := r] ! j = db ! j))
   else update_trip i new now db = (Inl NotFound, db)"
proof (cases "\<exists>t \<in> set db. id' t = Some i")
  case True
  then obtain k where k: "k < length db" "find_trip_index db i = int k"
    "id' (db ! k) = Some i" "\<forall>j < k. id' (db ! j) \<noteq> Some i"
    by (rule find_trip_index_present)
  define r where "r = new\<lparr>id' := Some i, created_at := created_at (db ! k), updated_at := Some now\<rparr>"
  have "update_trip i new now db = (Inr r, db[k := r])"
    using k(2) by (simp add: update_trip_def r_def Let_def)
  moreover have "id' r = Some i" "created_at r = created_at (db ! k)" "updated_at r = Some now"
    "destination r = destination new" "country r = country new"
    "travel_agency r = travel_agency new" "duration_days r = duration_days new"
    "price r = price new" "rating r = rating new" "group_size r = group_size new"
    by (simp_all add: r_def)
  moreover have "length (db[k := r]) = length db" "db[k := r] ! k = r"
    "\<forall>j < length db. j \<noteq> k \<longrightarrow> db[k := r] ! j = db ! j"
    using k(1) by simp_all
  ultimately show ?thesis using True k(1,3,4) by (simp only: if_True) blast
next
  case False
  then have "find_trip_index db i = - 1" by (intro find_trip_index_absent) blast
  then show ?thesis using False by (simp add: update_trip_def)
qed

theorem update_trip_replaces_in_place_witness:
  "(\<exists>t \<in> set two_trips. id' t = Some ''b'')
   \<and> update_trip ''b'' (STATIC_TRIPS ! 2) ''2024-01-03T10:00:00'' two_trips =
       (Inr ((STATIC_TRIPS ! 2)\<lparr>id' := Some ''b'', created_at := Some ''2024-01-02T10:00:00'',
                                 updated_at := Some ''2024-01-03T10:00:00''\<rparr>),
        [two_trips ! 0,
         (STATIC_TRIPS ! 2)\<lparr>id' := Some ''b'', created_at := Some ''2024-01-02T10:00:00'',
                               updated_at := Some ''2024-01-03T10:00:00''\<rparr>])
   \<and> \<not> (\<exists>t \<in> set two_trips. id' t = Some ''c'')
   \<and> update_trip ''c'' (STATIC_TRIPS ! 2) ''2024-01-03T10:00:00'' two_trips = (Inl NotFound, two_trips)"
proof -
  have present: "\<exists>t \<in> set two_trips. id' t = Some ''b''"
    by (simp add: two_trips_eq)
  have absent: "\<not> (\<exists>t \<in> set two_trips. id' t = Some ''c'')"
    by (simp add: two_trips_eq)
  from update_trip_replaces_in_place[of two_trips "''b''" "STATIC_TRIPS ! 2" "''2024-01-03T10:00:00''"]
    present
  obtain k r where kr: "k < length two_trips" "id' (two_trips ! k) = Some ''b''"
      "\<forall>j < k. id' (two_trips ! j) \<noteq> Some ''b''"
      "update_trip ''b'' (STATIC_TRIPS ! 2) ''2024-01-03T10:00:00'' two_trips = (Inr r, two_trips[k := r])"
      "id' r = Some ''b''" "created_at r = created_at (two_trips ! k)"
      "updated_at r = Some ''2024-01-03T10:00:00''"
    by (simp only: if_True) blast
  have k1: "k = 1"
    using kr(1,2) by (auto simp: two_trips_eq less_Suc_eq)
  have "update_trip ''b'' (STATIC_TRIPS ! 2) ''2024-01-03T10:00:00'' two_trips =
       (Inr ((STATIC_TRIPS ! 2)\<lparr>id' := Some ''b'', created_at := Some ''2024-01-02T10:00:00'',
                                 updated_at := Some ''2024-01-03T10:00:00''\<rparr>),
        [two_trips ! 0,
         (STATIC_TRIPS ! 2)\<lparr>id' := Some ''b'', created_at := Some ''2024-01-02T10:00:00'',
                               updated_at := Some ''2024-01-03T10:00:00''\<rparr>])"
    by (simp add: update_trip_def find_trip_index_def two_trips_eq Let_def)
  moreover from update_trip_replaces_in_place[of two_trips "''c''" "STATIC_TRIPS ! 2" "''2024-01-03T10:00:00''"]
    absent
  have "update_trip ''c'' (STATIC_TRIPS ! 2) ''2024-01-03T10:00:00'' two_trips = (Inl NotFound, two_trips)"
    by (simp only: if_False)
  ultimately show ?thesis using present absent by blast
qed

subsection \<open>Partial update\<close>

lemma dict_get_Nil: "dict_get [] key = None"
  by (simp add: dict_get_def)

lemma dict_get_Cons:
  "dict_get ((k, v) # m) key =
     (case dict_get m key of Some x \<Rightarrow> Some x | None \<Rightarrow> if key = k then Some v else None)"
  by (simp add: dict_get_def map_add_def split: option.splits)

lemma patch_loop_get:
  "patch_loop m d key =
     (if d key \<noteq> None \<and> key \<noteq> ''id'' \<and> key \<noteq> ''created_at''
      then (case dict_get m key of Some v \<Rightarrow> Some v | None \<Rightarrow> d key)
      else d key)"
proof (induction m arbitrary: d)
  case Nil
  then show ?case by (simp add: dict_get_Nil)
next
  case (Cons a m)
  obtain k v where a: "a = (k, v)" by (cases a)
  show ?case
  proof (cases "d k \<noteq> None \<and> k \<notin> set [''id'', ''created_at'']")
    case True
    then have "patch_loop (a # m) d key = patch_loop m (d(k \<mapsto> v)) key"
      unfolding a by simp
    also have "\<dots> = (if (d(k \<mapsto> v)) key \<noteq> None \<and> key \<noteq> ''id'' \<and> key \<noteq> ''created_at''
      then (case dict_get m key of Some x \<Rightarrow> Some x | None \<Rightarrow> (d(k \<mapsto> v)) key)
      else (d(k \<mapsto> v)) key)" by (rule Cons.IH)
    finally show ?thesis using True unfolding a dict_get_Cons
      by (cases "key = k"; cases "dict_get m key") auto
  next
    case False
    then have "patch_loop (a # m) d key = patch_loop m d key"
      unfolding a by auto
    also note Cons.IH[of d]
    finally show ?thesis using False unfolding a dict_get_Cons
      by (cases "key = k"; cases "dict_get m key") auto
  qed
qed


lemma Trip_validate_Some:
  assumes "optional_str V (d ''id'') = Some i"
    "required (as_str V) (d ''destination'') = Some dest"
    "required (as_str V) (d ''country'') = Some ctry"
    "required (as_str V) (d ''travel_agency'') = Some agency"
    "required (as_int V) (d ''duration_days'') = Some days"
    "required (as_float V) (d ''price'') = Some pr"
    "required (as_float V) (d ''rating'') = Some rt"
    "required (as_int V) (d ''group_size'') = Some gs"
    "optional_str V (d ''created_at'') = Some c"
    "optional_str V (d ''updated_at'') = Some u"
  shows "Trip_validate V d =
     Some \<lparr>id' = i, destination = dest, country = ctry, travel_agency = agency,
           duration_days = days, price = pr, rating = rt, group_size = gs,
           created_at = c, updated_at = u\<rparr>"
  unfolding Trip_validate_def by (simp add: assms)

lemma Trip_validate_None:
  assumes "required (as_str V) (d ''destination'') = None
    \<or> required (as_str V) (d ''country'') = None
    \<or> required (as_str V) (d ''travel_agency'') = None
    \<or> required (as_int V) (d ''duration_days'') = None
    \<or> required (as_float V) (d ''price'') = None
    \<or> required (as_float V) (d ''rating'') = None
    \<or> required (as_int V) (d ''group_size'') = None"
  shows "Trip_validate V d = None"
  using assms unfolding Trip_validate_def by (auto simp: bind_eq_None_conv)

lemma Trip_dict_fields:
  "Trip_dict t ''id'' = Some (opt_val (id' t))"
  "Trip_dict t ''destination'' = Some (PStr (destination t))"
  "Trip_dict t ''country'' = Some (PStr (country t))"
  "Trip_dict t ''travel_agency'' = Some (PStr (travel_agency t))"
  "Trip_dict t ''duration_days'' = Some (PInt (duration_days t))"
  "Trip_dict t ''price'' = Some (PFloat (price t))"
  "Trip_dict t ''rating'' = Some (PFloat (rating t))"
  "Trip_dict t ''group_size'' = Some (PInt (group_size t))"
  "Trip_dict t ''created_at'' = Some (opt_val (created_at t))"
  "Trip_dict t ''updated_at'' = Some (opt_val (updated_at t))"
  by (simp_all add: Trip_dict_def)

lemma Trip_dict_other:
  "f \<notin> set [''id'', ''destination'', ''country'', ''travel_agency'', ''duration_days'',
              ''price'', ''rating'', ''group_size'', ''created_at'', ''updated_at'']
   \<Longrightarrow> Trip_dict t f = None"
  by (simp add: Trip_dict_def)

lemma optional_str_opt_val:
  "accepts_own_types V \<Longrightarrow> optional_str V (Some (opt_val x)) = Some x"
  by (cases x) (simp_all add: optional_str_def opt_val_def accepts_own_types_def)


lemma merged_fields:
  fixes m old now
  defines "d \<equiv> (patch_loop m (Trip_dict old))(''updated_at'' \<mapsto> PStr now)"
  shows "d ''id'' = Some (opt_val (id' old))"
    "d ''created_at'' = Some (opt_val (created_at old))"
    "d ''updated_at'' = Some (PStr now)"
    "d ''destination'' = Some (case dict_get m ''destination'' of Some v \<Rightarrow> v | None \<Rightarrow> PStr (destination old))"
    "d ''country'' = Some (case dict_get m ''country'' of Some v \<Rightarrow> v | None \<Rightarrow> PStr (country old))"
    "d ''travel_agency'' = Some (case dict_get m ''travel_agency'' of Some v \<Rightarrow> v | None \<Rightarrow> PStr (travel_agency old))"
    "d ''duration_days'' = Some (case dict_get m ''duration_days'' of Some v \<Rightarrow> v | None \<Rightarrow> PInt (duration_days old))"
    "d ''price'' = Some (case dict_get m ''price'' of Some v \<Rightarrow> v | None \<Rightarrow> PFloat (price old))"
    "d ''rating'' = Some (case dict_get m ''rating'' of Some v \<Rightarrow> v | None \<Rightarrow> PFloat (rating old))"
    "d ''group_size'' = Some (case dict_get m ''group_size'' of Some v \<Rightarrow> v | None \<Rightarrow> PInt (group_size old))"
  unfolding d_def by (simp_all add: patch_loop_get Trip_dict_fields split: option.splits)

lemma patch_trip_found:
  assumes "k < length db" "find_trip_index db i = int k"
  shows "patch_trip V i m now db =
     (case Trip_validate V ((patch_loop m (Trip_dict (db ! k)))(''updated_at'' \<mapsto> PStr now)) of
        None \<Rightarrow> (Inl ValidationError, db)
      | Some r \<Rightarrow> (Inr r, db[k := r]))"
  using assms by (simp add: patch_trip_def Trip_init_def Let_def split: option.splits)


lemma str_field_value:
  assumes "accepts_own_types V"
    and "\<forall>v. dict_get m f = Some v \<longrightarrow> validate_field V f v \<noteq> None"
    and "f \<in> set [''destination'', ''country'', ''travel_agency'']"
  shows "\<exists>x. as_str V (case dict_get m f of Some v \<Rightarrow> v | None \<Rightarrow> PStr s) = Some x
     \<and> (case dict_get m f of Some v \<Rightarrow> validate_field V f v | None \<Rightarrow> Some (PStr s)) = Some (PStr x)"
proof (cases "dict_get m f")
  case None
  with assms(1) show ?thesis by (simp add: accepts_own_types_def)
next
  case (Some v)
  with assms(2) have "validate_field V f v \<noteq> None" by simp
  moreover have "validate_field V f v = map_option PStr (as_str V v)"
    using assms(3) by (auto simp: validate_field_def)
  ultimately show ?thesis using Some by auto
qed

lemma int_field_value:
  assumes "accepts_own_types V"
    and "\<forall>v. dict_get m f = Some v \<longrightarrow> validate_field V f v \<noteq> None"
    and "f \<in> set [''duration_days'', ''group_size'']"
  shows "\<exists>x. as_int V (case dict_get m f of Some v \<Rightarrow> v | None \<Rightarrow> PInt n) = Some x
     \<and> (case dict_get m f of Some v \<Rightarrow> validate_field V f v | None \<Rightarrow> Some (PInt n)) = Some (PInt x)"
proof (cases "dict_get m f")
  case None
  with assms(1) show ?thesis by (simp add: accepts_own_types_def)
next
  case (Some v)
  with assms(2) have "validate_field V f v \<noteq> None" by simp
  moreover have "validate_field V f v = map_option PInt (as_int V v)"
    using assms(3) by (auto simp: validate_field_def)
  ultimately show ?thesis using Some by auto
qed

lemma float_field_value:
  assumes "accepts_own_types V"
    and "\<forall>v. dict_get m f = Some v \<longrightarrow> validate_field V f v \<noteq> None"
    and "f \<in> set [''price'', ''rating'']"
  shows "\<exists>x. as_float V (case dict_get m f of Some v \<Rightarrow> v | None \<Rightarrow> PFloat q) = Some x
     \<and> (case dict_get m f of Some v \<Rightarrow> validate_field V f v | None \<Rightarrow> Some (PFloat q)) = Some (PFloat x)"
proof (cases "dict_get m f")
  case None
  with assms(1) show ?thesis by (simp add: accepts_own_types_def)
next
  case (Some v)
  with assms(2) have "validate_field V f v \<noteq> None" by simp
  moreover have "validate_field V f v = map_option PFloat (as_float V v)"
    using assms(3) by (auto simp: validate_field_def)
  ultimately show ?thesis using Some by auto
qed

lemma patched_validate:
  assumes acc: "accepts_own_types V"
   and dest: "as_str V (case dict_get m ''destination'' of Some v \<Rightarrow> v | None \<Rightarrow> PStr (destination old)) = Some dest"
   and ctry: "as_str V (case dict_get m ''country'' of Some v \<Rightarrow> v | None \<Rightarrow> PStr (country old)) = Some ctry"
   and agency: "as_str V (case dict_get m ''travel_agency'' of Some v \<Rightarrow> v | None \<Rightarrow> PStr (travel_agency old)) = Some agency"
   and days: "as_int V (case dict_get m ''duration_days'' of Some v \<Rightarrow> v | None \<Rightarrow> PInt (duration_days old)) = Some days"
   and gs: "as_int V (case dict_get m ''group_size'' of Some v \<Rightarrow> v | None \<Rightarrow> PInt (group_size old)) = Some gs"
   and pr: "as_float V (case dict_get m ''price'' of Some v \<Rightarrow> v | None \<Rightarrow> PFloat (price old)) = Some pr"
   and rt: "as_float V (case dict_get m ''rating'' of Some v \<Rightarrow> v | None \<Rightarrow> PFloat (rating old)) = Some rt"
  shows "Trip_validate V ((patch_loop m (Trip_dict old))(''updated_at'' \<mapsto> PStr now)) =
     Some \<lparr>id' = id' old, destination = dest, country = ctry, travel_agency = agency,
           duration_days = days, price = pr, rating = rt, group_size = gs,
           created_at = created_at old, updated_at = Some now\<rparr>"
proof -
  let ?d = "(patch_loop m (Trip_dict old))(''updated_at'' \<mapsto> PStr now)"
  have u: "optional_str V (Some (PStr now)) = Some (Some now)"
    using optional_str_opt_val[OF acc, of "Some now"] by (simp add: opt_val_def)
  have 1: "optional_str V (?d ''id'') = Some (id' old)"
    by (simp only: merged_fields optional_str_opt_val[OF acc])
  have 2: "required (as_str V) (?d ''destination'') = Some dest"
    by (simp only: merged_fields required_def option.case dest)
  have 3: "required (as_str V) (?d ''country'') = Some ctry"
    by (simp only: merged_fields required_def option.case ctry)
  have 4: "required (as_str V) (?d ''travel_agency'') = Some agency"
    by (simp only: merged_fields required_def option.case agency)
  have 5: "required (as_int V) (?d ''duration_days'') = Some days"
    by (simp only: merged_fields required_def option.case days)
  have 6: "required (as_float V) (?d ''price'') = Some pr"
    by (simp only: merged_fields required_def option.case pr)
  have 7: "required (as_float V) (?d ''rating'') = Some rt"
    by (simp only: merged_fields required_def option.case rt)
  have 8: "required (as_int V) (?d ''group_size'') = Some gs"
    by (simp only: merged_fields required_def option.case gs)
  have 9: "optional_str V (?d ''created_at'') = Some (created_at old)"
    by (simp only: merged_fields optional_str_opt_val[OF acc])
  have 10: "optional_str V (?d ''updated_at'') = Some (Some now)"
    by (simp only: merged_fields u)
  show ?thesis
    using 1 2 3 4 5 6 7 8 9 10 by (rule Trip_validate_Some)
qed

lemma field_name_cases:
  assumes "f \<in> set [''id'', ''destination'', ''country'', ''travel_agency'', ''duration_days'',
              ''price'', ''rating'', ''group_size'', ''created_at'', ''updated_at'']"
    and "P ''id''" "P ''destination''" "P ''country''" "P ''travel_agency''"
      "P ''duration_days''" "P ''price''" "P ''rating''" "P ''group_size''"
      "P ''created_at''" "P ''updated_at''"
  shows "P f"
proof -
  from assms(1) have "f = ''id'' \<or> f = ''destination'' \<or> f = ''country'' \<or> f = ''travel_agency''
      \<or> f = ''duration_days'' \<or> f = ''price'' \<or> f = ''rating'' \<or> f = ''group_size''
      \<or> f = ''created_at'' \<or> f = ''updated_at'' \<or> False"
    by (simp only: list.set insert_iff empty_iff)
  then show ?thesis
    using assms(2-) by - (elim disjE FalseE, simp_all)
qed

lemma patch_validates:
  assumes acc: "accepts_own_types V"
    and ok: "\<forall>f \<in> set data_fields. \<forall>v. dict_get m f = Some v \<longrightarrow> validate_field V f v \<noteq> None"
  shows "\<exists>r. Trip_validate V ((patch_loop m (Trip_dict old))(''updated_at'' \<mapsto> PStr now)) = Some r
     \<and> (\<forall>f. Trip_dict r f =
           (if f = ''updated_at'' then Some (PStr now)
            else if f \<in> set data_fields
              then (case dict_get m f of Some v \<Rightarrow> validate_field V f v | None \<Rightarrow> Trip_dict old f)
            else Trip_dict old f))"
proof -
  have okf: "\<forall>v. dict_get m f = Some v \<longrightarrow> validate_field V f v \<noteq> None"
    if "f \<in> set data_fields" for f using ok that by blast
  have in_df: "''destination'' \<in> set data_fields" "''country'' \<in> set data_fields"
    "''travel_agency'' \<in> set data_fields" "''duration_days'' \<in> set data_fields"
    "''price'' \<in> set data_fields" "''rating'' \<in> set data_fields"
    "''group_size'' \<in> set data_fields"
    by (simp_all add: data_fields_def)
  obtain dest where dest:
    "as_str V (case dict_get m ''destination'' of Some v \<Rightarrow> v | None \<Rightarrow> PStr (destination old)) = Some dest"
    "(case dict_get m ''destination'' of Some v \<Rightarrow> validate_field V ''destination'' v
       | None \<Rightarrow> Some (PStr (destination old))) = Some (PStr dest)"
    using str_field_value[OF acc okf[OF in_df(1)], of "destination old"] by auto
  obtain ctry where ctry:
    "as_str V (case dict_get m ''country'' of Some v \<Rightarrow> v | None \<Rightarrow> PStr (country old)) = Some ctry"
    "(case dict_get m ''country'' of Some v \<Rightarrow> validate_field V ''country'' v
       | None \<Rightarrow> Some (PStr (country old))) = Some (PStr ctry)"
    using str_field_value[OF acc okf[OF in_df(2)], of "country old"] by auto
  obtain agency where agency:
    "as_str V (case dict_get m ''travel_agency'' of Some v \<Rightarrow> v | None \<Rightarrow> PStr (travel_agency old)) = Some agency"
    "(case dict_get m ''travel_agency'' of Some v \<Rightarrow> validate_field V ''travel_agency'' v
       | None \<Rightarrow> Some (PStr (travel_agency old))) = Some (PStr agency)"
    using str_field_value[OF acc okf[OF in_df(3)], of "travel_agency old"] by auto
  obtain days where days:
    "as_int V (case dict_get m ''duration_days'' of Some v \<Rightarrow> v | None \<Rightarrow> PInt (duration_days old)) = Some days"
    "(case dict_get m ''duration_days'' of Some v \<Rightarrow> validate_field V ''duration_days'' v
       | None \<Rightarrow> Some (PInt (duration_days old))) = Some (PInt days)"
    using int_field_value[OF acc okf[OF in_df(4)], of "duration_days old"] by auto
  obtain pr where pr:
    "as_float V (case dict_get m ''price'' of Some v \<Rightarrow> v | None \<Rightarrow> PFloat (price old)) = Some pr"
    "(case dict_get m ''price'' of Some v \<Rightarrow> validate_field V ''price'' v
       | None \<Rightarrow> Some (PFloat (price old))) = Some (PFloat pr)"
    using float_field_value[OF acc okf[OF in_df(5)], of "price old"] by auto
  obtain rt where rt:
    "as_float V (case dict_get m ''rating'' of Some v \<Rightarrow> v | None \<Rightarrow> PFloat (rating old)) = Some rt"
    "(case dict_get m ''rating'' of Some v \<Rightarrow> validate_field V ''rating'' v
       | None \<Rightarrow> Some (PFloat (rating old))) = Some (PFloat rt)"
    using float_field_value[OF acc okf[OF in_df(6)], of "rating old"] by auto
  obtain gs where gs:
    "as_int V (case dict_get m ''group_size'' of Some v \<Rightarrow> v | None \<Rightarrow> PInt (group_size old)) = Some gs"
    "(case dict_get m ''group_size'' of Some v \<Rightarrow> validate_field V ''group_size'' v
       | None \<Rightarrow> Some (PInt (group_size old))) = Some (PInt gs)"
    using int_field_value[OF acc okf[OF in_df(7)], of "group_size old"] by auto
  define r where "r = \<lparr>id' = id' old, destination = dest, country = ctry, travel_agency = agency,
           duration_days = days, price = pr, rating = rt, group_size = gs,
           created_at = created_at old, updated_at = Some now\<rparr>"
  have v: "Trip_validate V ((patch_loop m (Trip_dict old))(''updated_at'' \<mapsto> PStr now)) = Some r"
    unfolding r_def
    using acc dest(1) ctry(1) agency(1) days(1) gs(1) pr(1) rt(1) by (rule patched_validate)
  have sel: "id' r = id' old" "destination r = dest" "country r = ctry" "travel_agency r = agency"
    "duration_days r = days" "price r = pr" "rating r = rt" "group_size r = gs"
    "created_at r = created_at old" "updated_at r = Some now"
    by (simp_all add: r_def)
  let ?P = "\<lambda>f. Trip_dict r f =
           (if f = ''updated_at'' then Some (PStr now)
            else if f \<in> set data_fields
              then (case dict_get m f of Some v \<Rightarrow> validate_field V f v | None \<Rightarrow> Trip_dict old f)
            else Trip_dict old f)"
  have td: "?P f" for f
  proof (cases "f \<in> set [''id'', ''destination'', ''country'', ''travel_agency'', ''duration_days'',
              ''price'', ''rating'', ''group_size'', ''created_at'', ''updated_at'']")
    case False
    then have "f \<noteq> ''updated_at''" "f \<notin> set data_fields"
      by (simp_all add: data_fields_def)
    then show ?thesis
      using Trip_dict_other[OF False, of r] Trip_dict_other[OF False, of old] by simp
  next
    case True
    have "?P ''id''" by (simp add: Trip_dict_fields data_fields_def sel)
    moreover have "?P ''destination''" using dest(2)
      by (cases "dict_get m ''destination''") (simp_all add: Trip_dict_fields data_fields_def sel)
    moreover have "?P ''country''" using ctry(2)
      by (cases "dict_get m ''country''") (simp_all add: Trip_dict_fields data_fields_def sel)
    moreover have "?P ''travel_agency''" using agency(2)
      by (cases "dict_get m ''travel_agency''") (simp_all add: Trip_dict_fields data_fields_def sel)
    moreover have "?P ''duration_days''" using days(2)
      by (cases "dict_get m ''duration_days''") (simp_all add: Trip_dict_fields data_fields_def sel)
    moreover have "?P ''price''" using pr(2)
      by (cases "dict_get m ''price''") (simp_all add: Trip_dict_fields data_fields_def sel)
    moreover have "?P ''rating''" using rt(2)
      by (cases "dict_get m ''rating''") (simp_all add: Trip_dict_fields data_fields_def sel)
    moreover have "?P ''group_size''" using gs(2)
      by (cases "dict_get m ''group_size''") (simp_all add: Trip_dict_fields data_fields_def sel)
    moreover have "?P ''created_at''" by (simp add: Trip_dict_fields data_fields_def sel)
    moreover have "?P ''updated_at''" by (simp add: Trip_dict_fields data_fields_def sel opt_val_def)
    ultimately show ?thesis by (rule field_name_cases[OF True, where P = ?P])
  qed
  show ?thesis
    by (rule exI[of _ r], rule conjI, rule v, rule allI, rule td)
qed

lemma patch_rejects:
  assumes f: "f \<in> set data_fields" and g: "dict_get m f = Some v"
    and bad: "validate_field V f v = None"
  shows "Trip_validate V ((patch_loop m (Trip_dict old))(''updated_at'' \<mapsto> PStr now)) = None"
proof -
  let ?d = "(patch_loop m (Trip_dict old))(''updated_at'' \<mapsto> PStr now)"
  from f have "f = ''destination'' \<or> f = ''country'' \<or> f = ''travel_agency''
      \<or> f = ''duration_days'' \<or> f = ''price'' \<or> f = ''rating'' \<or> f = ''group_size'' \<or> False"
    unfolding data_fields_def by (simp only: list.set insert_iff empty_iff)
  then have "required (as_str V) (?d ''destination'') = None
    \<or> required (as_str V) (?d ''country'') = None
    \<or> required (as_str V) (?d ''travel_agency'') = None
    \<or> required (as_int V) (?d ''duration_days'') = None
    \<or> required (as_float V) (?d ''price'') = None
    \<or> required (as_float V) (?d ''rating'') = None
    \<or> required (as_int V) (?d ''group_size'') = None"
    using g bad
    by - (elim disjE FalseE, simp_all only: merged_fields required_def option.case,
          simp_all add: validate_field_def)
  then show ?thesis by (rule Trip_validate_None)
qed

lemmas eval_patch = patch_trip_def find_trip_index_def two_trips_eq STATIC_TRIPS_def Trip_dict_def
  Trip_init_def Trip_validate_def required_def optional_str_def exact_validators_def opt_val_def Let_def

lemma exact_validators_accept: "accepts_own_types exact_validators"
  by (simp add: accepts_own_types_def exact_validators_def)

text \<open>
  C1, as amended. Let \<open>V\<close> keep values of the declared types and let a record with
  id \<open>i\<close> be stored, the first at position \<open>k\<close>. If every value that \<open>m\<close> gives for
  one of the seven data fields validates, \<open>patch_trip\<close> stores and returns a record
  \<open>r\<close> at position \<open>k\<close> whose \<open>dict()\<close> is: \<open>updated_at\<close> is the current time
  (whatever \<open>m\<close> holds for that key, and also for an empty \<open>m\<close>); a data field that
  \<open>m\<close> names has the validated value; every other field, \<open>id\<close> and \<open>created_at\<close> among
  them, is as before; a key that names no field changes nothing. If some such
  value does not validate, the call fails with \<open>ValidationError\<close> and the list is
  as before. With no record of id \<open>i\<close> the call gives \<open>NotFound\<close>.
\<close>

theorem patch_trip_merges:
  assumes acc: "accepts_own_types V"
  shows "if (\<exists>t \<in> set db. id' t = Some i)
   then (\<exists>k. k < length db \<and> id' (db ! k) = Some i \<and> (\<forall>j < k. id' (db ! j) \<noteq> Some i)
      \<and> (if (\<forall>f \<in> set data_fields. \<forall>v. dict_get m f = Some v \<longrightarrow> validate_field V f v \<noteq> None)
          then (\<exists>r. patch_trip V i m now db = (Inr r, db[k := r])
                 \<and> (\<forall>f. Trip_dict r f =
                       (if f = ''updated_at'' then Some (PStr now)
                        else if f \<in> set data_fields
                          then (case dict_get m f of Some v \<Rightarrow> validate_field V f v
                                | None \<Rightarrow> Trip_dict (db ! k) f)
                        else Trip_dict (db ! k) f)))
          else patch_trip V i m now db = (Inl ValidationError, db)))
   else patch_trip V i m now db = (Inl NotFound, db)"
proof (cases "\<exists>t \<in> set db. id' t = Some i")
  case False
  then have "find_trip_index db i = - 1" by (intro find_trip_index_absent) blast
  then show ?thesis using False by (simp add: patch_trip_def)
next
  case True
  then obtain k where k: "k < length db" "find_trip_index db i = int k"
    "id' (db ! k) = Some i" "\<forall>j < k. id' (db ! j) \<noteq> Some i"
    by (rule find_trip_index_present)
  note pt = patch_trip_found[OF k(1,2), of V m now]
  let ?ok = "\<forall>f \<in> set data_fields. \<forall>v. dict_get m f = Some v \<longrightarrow> validate_field V f v \<noteq> None"
  have "if ?ok
          then (\<exists>r. patch_trip V i m now db = (Inr r, db[k := r])
                 \<and> (\<forall>f. Trip_dict r f =
                       (if f = ''updated_at'' then Some (PStr now)
                        else if f \<in> set data_fields
                          then (case dict_get m f of Some v \<Rightarrow> validate_field V f v
                                | None \<Rightarrow> Trip_dict (db ! k) f)
                        else Trip_dict (db ! k) f)))
          else patch_trip V i m now db = (Inl ValidationError, db)"
  proof (cases ?ok)
    case True
    from patch_validates[OF acc True, of "db ! k" now] obtain r where
      r: "Trip_validate V ((patch_loop m (Trip_dict (db ! k)))(''updated_at'' \<mapsto> PStr now)) = Some r"
      "\<forall>f. Trip_dict r f =
                       (if f = ''updated_at'' then Some (PStr now)
                        else if f \<in> set data_fields
                          then (case dict_get m f of Some v \<Rightarrow> validate_field V f v
                                | None \<Rightarrow> Trip_dict (db ! k) f)
                        else Trip_dict (db ! k) f)"
      by (elim exE conjE)
    have "patch_trip V i m now db = (Inr r, db[k := r])"
      unfolding pt r(1) by simp
    with r(2) show ?thesis unfolding if_P[OF True] by (intro exI[of _ r] conjI)
  next
    case False
    then obtain f v where "f \<in> set data_fields" "dict_get m f = Some v" "validate_field V f v = None"
      by auto
    then have "Trip_validate V ((patch_loop m (Trip_dict (db ! k)))(''updated_at'' \<mapsto> PStr now)) = None"
      by (rule patch_rejects)
    then have "patch_trip V i m now db = (Inl ValidationError, db)"
      unfolding pt by simp
    then show ?thesis unfolding if_not_P[OF False] .
  qed
  with k(1,3,4) show ?thesis unfolding if_P[OF True] by (intro exI[of _ k] conjI)
qed

theorem patch_trip_merges_witness:
  "accepts_own_types exact_validators
   \<and> (\<exists>t \<in> set two_trips. id' t = Some ''a'')
   \<and> validate_field exact_validators ''price'' (PInt 99999) = Some (PFloat 99999)
   \<and> (\<exists>r. patch_trip exact_validators ''a'' [(''price'', PInt 99999), (''colour'', PStr ''red'')]
              ''2024-02-01T10:00:00'' two_trips = (Inr r, two_trips[0 := r])
          \<and> Trip_dict r ''price'' = Some (PFloat 99999)
          \<and> Trip_dict r ''updated_at'' = Some (PStr ''2024-02-01T10:00:00'')
          \<and> Trip_dict r ''id'' = Trip_dict (two_trips ! 0) ''id''
          \<and> Trip_dict r ''created_at'' = Trip_dict (two_trips ! 0) ''created_at''
          \<and> Trip_dict r ''rating'' = Trip_dict (two_trips ! 0) ''rating''
          \<and> Trip_dict r ''colour'' = None)"
proof -
  let ?m = "[(''price'', PInt 99999), (''colour'', PStr ''red'')]"
  let ?now = "''2024-02-01T10:00:00''"
  note acc = exact_validators_accept
  have present: "\<exists>t \<in> set two_trips. id' t = Some ''a''"
    by (simp add: two_trips_eq)
  have ok: "\<forall>f \<in> set data_fields. \<forall>v. dict_get ?m f = Some v
              \<longrightarrow> validate_field exact_validators f v \<noteq> None"
    by (simp add: data_fields_def dict_get_def validate_field_def exact_validators_def)
  have vf: "validate_field exact_validators ''price'' (PInt 99999) = Some (PFloat 99999)"
    by (simp add: validate_field_def exact_validators_def)
  from patch_trip_merges[OF acc, of two_trips "''a''" ?m ?now, unfolded if_P[OF present]]
  obtain k where k: "k < length two_trips" "id' (two_trips ! k) = Some ''a''"
    and rest: "if (\<forall>f \<in> set data_fields. \<forall>v. dict_get ?m f = Some v
                     \<longrightarrow> validate_field exact_validators f v \<noteq> None)
          then (\<exists>r. patch_trip exact_validators ''a'' ?m ?now two_trips = (Inr r, two_trips[k := r])
                 \<and> (\<forall>f. Trip_dict r f =
                       (if f = ''updated_at'' then Some (PStr ?now)
                        else if f \<in> set data_fields
                          then (case dict_get ?m f of Some v \<Rightarrow> validate_field exact_validators f v
                                | None \<Rightarrow> Trip_dict (two_trips ! k) f)
                        else Trip_dict (two_trips ! k) f)))
          else patch_trip exact_validators ''a'' ?m ?now two_trips = (Inl ValidationError, two_trips)"
    by (elim exE conjE)
  have k0: "k = 0"
    using k by (auto simp: two_trips_eq less_Suc_eq)
  from rest[unfolded if_P[OF ok]] obtain r where
    r: "patch_trip exact_validators ''a'' ?m ?now two_trips = (Inr r, two_trips[k := r])"
    and d: "\<And>f. Trip_dict r f =
                       (if f = ''updated_at'' then Some (PStr ?now)
                        else if f \<in> set data_fields
                          then (case dict_get ?m f of Some v \<Rightarrow> validate_field exact_validators f v
                                | None \<Rightarrow> Trip_dict (two_trips ! k) f)
                        else Trip_dict (two_trips ! k) f)"
    by (elim exE conjE) blast
  have "Trip_dict r ''price'' = Some (PFloat 99999)"
    unfolding d by (simp add: data_fields_def dict_get_def vf)
  moreover have "Trip_dict r ''updated_at'' = Some (PStr ?now)"
    unfolding d by simp
  moreover have "Trip_dict r ''id'' = Trip_dict (two_trips ! 0) ''id''"
    unfolding d k0 by (simp add: data_fields_def)
  moreover have "Trip_dict r ''created_at'' = Trip_dict (two_trips ! 0) ''created_at''"
    unfolding d k0 by (simp add: data_fields_def)
  moreover have "Trip_dict r ''rating'' = Trip_dict (two_trips ! 0) ''rating''"
    unfolding d k0 by (simp add: data_fields_def dict_get_def)
  moreover have "Trip_dict r ''colour'' = None"
    unfolding d k0 by (simp add: data_fields_def Trip_dict_def)
  ultimately show ?thesis
    using acc present vf r[unfolded k0] by (intro conjI exI[of _ r])
qed

text \<open>
  C1 as stated fails twice. It counts \<open>updated_at\<close> among the fields that take the
  given value, yet the time of the call replaces the value the client sent; and a
  value that does not validate is not written but fails the whole call.
\<close>

theorem patch_trip_given_value_counterexample:
  "patch_trip exact_validators ''a'' [(''updated_at'', PStr ''1999-01-01T00:00:00'')]
        ''2024-02-01T10:00:00'' two_trips =
      (Inr ((two_trips ! 0)\<lparr>updated_at := Some ''2024-02-01T10:00:00''\<rparr>),
       [(two_trips ! 0)\<lparr>updated_at := Some ''2024-02-01T10:00:00''\<rparr>, two_trips ! 1])
   \<and> updated_at ((two_trips ! 0)\<lparr>updated_at := Some ''2024-02-01T10:00:00''\<rparr>)
        \<noteq> Some ''1999-01-01T00:00:00''
   \<and> patch_trip exact_validators ''a'' [(''price'', PStr ''abc'')]
        ''2024-02-01T10:00:00'' two_trips = (Inl ValidationError, two_trips)"
  by (simp add: eval_patch)

text \<open>
  C10, as amended. For a stored id, a mapping that gives one of the seven data
  fields a value that does not validate makes \<open>patch_trip\<close> fail with the
  \<open>ValidationError\<close> of \<open>Trip(**trip_dict)\<close>, which is neither \<open>NotFound\<close> nor the
  framework's rejection of a request body, and the list, every \<open>updated_at\<close>
  included, is the one before the call.
\<close>

theorem patch_trip_rejects_unconvertible:
  assumes "\<exists>t \<in> set db. id' t = Some i"
    and "f \<in> set data_fields" and "dict_get m f = Some v" and "validate_field V f v = None"
  shows "patch_trip V i m now db = (Inl ValidationError, db)
     \<and> ValidationError \<noteq> NotFound \<and> ValidationError \<noteq> RequestValidationError"
proof -
  from assms(1) obtain k where k: "k < length db" "find_trip_index db i = int k"
    by (rule find_trip_index_present)
  have "Trip_validate V ((patch_loop m (Trip_dict (db ! k)))(''updated_at'' \<mapsto> PStr now)) = None"
    using assms(2-4) by (rule patch_rejects)
  then show ?thesis
    unfolding patch_trip_found[OF k, of V m now] by simp
qed

theorem patch_trip_rejects_unconvertible_witness:
  "(\<exists>t \<in> set two_trips. id' t = Some ''a'')
   \<and> ''price'' \<in> set data_fields
   \<and> dict_get [(''price'', PStr ''abc'')] ''price'' = Some (PStr ''abc'')
   \<and> validate_field exact_validators ''price'' (PStr ''abc'') = None
   \<and> patch_trip exact_validators ''a'' [(''price'', PStr ''abc'')] ''2024-02-01T10:00:00'' two_trips
        = (Inl ValidationError, two_trips)"
proof -
  have 1: "\<exists>t \<in> set two_trips. id' t = Some ''a''"
    by (simp add: two_trips_eq)
  have 2: "''price'' \<in> set data_fields"
    by (simp add: data_fields_def)
  have 3: "dict_get [(''price'', PStr ''abc'')] ''price'' = Some (PStr ''abc'')"
    by (simp add: dict_get_def)
  have 4: "validate_field exact_validators ''price'' (PStr ''abc'') = None"
    by (simp add: validate_field_def exact_validators_def)
  from patch_trip_rejects_unconvertible[OF 1 2 3 4, of "''2024-02-01T10:00:00''"] 1 2 3 4
  show ?thesis by (intro conjI) (elim conjE, assumption)+
qed

text \<open>
  C10 as stated speaks of any known field. For \<open>id\<close> (and \<open>created_at\<close>) the loop
  skips the key, and for \<open>updated_at\<close> the time of the call replaces the value, so
  a value of the wrong type there is never validated: the call succeeds and
  refreshes \<open>updated_at\<close>.
\<close>

theorem patch_trip_skipped_key_counterexample:
  "validate_field exact_validators ''id'' (PList []) = None
   \<and> patch_trip exact_validators ''a'' [(''id'', PList [])] ''2024-02-01T10:00:00'' two_trips =
      (Inr ((two_trips ! 0)\<lparr>updated_at := Some ''2024-02-01T10:00:00''\<rparr>),
       [(two_trips ! 0)\<lparr>updated_at := Some ''2024-02-01T10:00:00''\<rparr>, two_trips ! 1])
   \<and> [(two_trips ! 0)\<lparr>updated_at := Some ''2024-02-01T10:00:00''\<rparr>, two_trips ! 1] \<noteq> two_trips"
  by (simp add: eval_patch validate_field_def)

subsection \<open>Creation\<close>



text \<open>
  Two request bodies that the framework accepts and that hold the same values
  for the seven data fields give parameters that agree in those fields; so the
  statement above applies to them.
\<close>

lemma accepted_bodies_agree:
  assumes "body_Trip V (PDict m1) = Inr t1" "body_Trip V (PDict m2) = Inr t2"
    and "\<forall>f \<in> set data_fields. dict_get m1 f = dict_get m2 f"
  shows "destination t1 = destination t2 \<and> country t1 = country t2
     \<and> travel_agency t1 = travel_agency t2 \<and> duration_days t1 = duration_days t2
     \<and> price t1 = price t2 \<and> rating t1 = rating t2 \<and> group_size t1 = group_size t2"
proof -
  from assms(3) have eq: "dict_get m1 ''destination'' = dict_get m2 ''destination''"
    "dict_get m1 ''country'' = dict_get m2 ''country''"
    "dict_get m1 ''travel_agency'' = dict_get m2 ''travel_agency''"
    "dict_get m1 ''duration_days'' = dict_get m2 ''duration_days''"
    "dict_get m1 ''price'' = dict_get m2 ''price''"
    "dict_get m1 ''rating'' = dict_get m2 ''rating''"
    "dict_get m1 ''group_size'' = dict_get m2 ''group_size''"
    by (simp_all add: data_fields_def)
  from assms(1) have 1: "Trip_validate V (dict_get m1) = Some t1"
    by (simp add: body_Trip_def split: option.splits)
  from assms(2) have 2: "Trip_validate V (dict_get m2) = Some t2"
    by (simp add: body_Trip_def split: option.splits)
  from 1 2 show ?thesis
    unfolding Trip_validate_def eq by (auto simp: bind_eq_Some_conv)
qed

subsection \<open>Search\<close>

lemma search_trips_filter:
  assumes "lower [] = []"
  shows "search_trips lower dest ctry min_price max_price min_rating db =
     filter (search_matches lower dest ctry min_price max_price min_rating) db"
proof -
  have a: "(case dest of Some d \<Rightarrow> if d \<noteq> [] then [t \<leftarrow> xs. sublist (lower d) (lower (destination t))] else xs
             | None \<Rightarrow> xs)
      = [t \<leftarrow> xs. (case dest of None \<Rightarrow> True | Some d \<Rightarrow> sublist (lower d) (lower (destination t)))]" for xs
    using assms by (cases dest) simp_all
  have b: "(case ctry of Some c \<Rightarrow> if c \<noteq> [] then [t \<leftarrow> xs. sublist (lower c) (lower (country t))] else xs
             | None \<Rightarrow> xs)
      = [t \<leftarrow> xs. (case ctry of None \<Rightarrow> True | Some c \<Rightarrow> sublist (lower c) (lower (country t)))]" for xs
    using assms by (cases ctry) simp_all
  have c: "(case min_price of Some p \<Rightarrow> [t \<leftarrow> xs. price t \<ge> p] | None \<Rightarrow> xs)
      = [t \<leftarrow> xs. (case min_price of None \<Rightarrow> True | Some p \<Rightarrow> p \<le> price t)]" for xs
    by (cases min_price) simp_all
  have d: "(case max_price of Some p \<Rightarrow> [t \<leftarrow> xs. price t \<le> p] | None \<Rightarrow> xs)
      = [t \<leftarrow> xs. (case max_price of None \<Rightarrow> True | Some p \<Rightarrow> price t \<le> p)]" for xs
    by (cases max_price) simp_all
  have e: "(case min_rating of Some r \<Rightarrow> [t \<leftarrow> xs. rating t \<ge> r] | None \<Rightarrow> xs)
      = [t \<leftarrow> xs. (case min_rating of None \<Rightarrow> True | Some r \<Rightarrow> r \<le> rating t)]" for xs
    by (cases min_rating) simp_all
  show ?thesis
    unfolding search_trips_def Let_def a b c d e
    by (auto simp: search_matches_def intro!: filter_cong)
qed

text \<open>
  C4. \<open>search_trips\<close> returns the records of the list that satisfy every supplied
  filter, in the order of the list: a destination and a country filter as
  containment of the lower-cased filter in the lower-cased field, \<open>min_price\<close> and
  \<open>max_price\<close> as inclusive bounds on \<open>price\<close>, \<open>min_rating\<close> as an inclusive lower
  bound on \<open>rating\<close>; without any filter it returns the whole list. (\<open>lower\<close> is
  \<open>str.lower\<close>, of which only \<open>.lower() == \<close> is used.)
\<close>

theorem search_trips_conjunction:
  assumes "lower [] = []"
  shows "search_trips lower dest ctry min_price max_price min_rating db =
           filter (search_matches lower dest ctry min_price max_price min_rating) db
     \<and> search_trips lower None None None None None db = db"
  using assms by (simp add: search_trips_filter) (simp add: search_matches_def)

theorem search_trips_conjunction_witness:
  "ascii_lower [] = []
   \<and> search_trips ascii_lower None None (Some 150000) (Some 220000) None STATIC_TRIPS =
       [STATIC_TRIPS ! 1, STATIC_TRIPS ! 2, STATIC_TRIPS ! 4]
   \<and> search_trips ascii_lower None None None None None STATIC_TRIPS = STATIC_TRIPS"
proof -
  have l: "ascii_lower [] = []" by (simp add: ascii_lower_def)
  note th = search_trips_conjunction[of ascii_lower, OF l]
  have "search_trips ascii_lower None None (Some 150000) (Some 220000) None STATIC_TRIPS =
       [STATIC_TRIPS ! 1, STATIC_TRIPS ! 2, STATIC_TRIPS ! 4]"
    unfolding th[THEN conjunct1] by (simp add: search_matches_def STATIC_TRIPS_def)
  with l th[THEN conjunct2, of STATIC_TRIPS] show ?thesis by (intro conjI)
qed

subsection \<open>Statistics\<close>








subsection \<open>Failure leaves the list alone\<close>






subsection \<open>Listing with a sort\<close>

text \<open>
  C3, the failing input. \<open>dict\<close> names no field of \<open>Trip\<close>, but it is an attribute of
  every \<open>Trip\<close> object (the source calls it), so \<open>getattr\<close> does not raise
  \<open>AttributeError\<close>; the sort then compares two bound methods, which raises
  \<open>TypeError\<close>, and the handler catches only \<open>AttributeError\<close>.
\<close>

theorem get_all_trips_dict_TypeError:
  "get_all_trips inherited (Some ''dict'') reverse two_trips = Inl TypeError"
  by (simp add: get_all_trips_def getattr_Trip_def list_sort_def two_trips_eq)

text \<open>
  Sorting by one of the seven data fields puts all records in the order of that
  field, ascending or descending, records with equal keys staying in the order
  of the list; without a sort field the list is returned as it is.
\<close>

lemma sort_key_short: "length xs < 2 \<Longrightarrow> sort_key k xs = xs"
  by (cases xs; cases "tl xs") auto

lemma stable_sort_short: "length xs < 2 \<Longrightarrow> stable_sort k reverse xs = xs"
  by (cases xs; cases "tl xs") (auto simp: stable_sort_def)

lemma stable_sort_mset: "mset (stable_sort key reverse xs) = mset xs"
  by (simp add: stable_sort_def)

lemma stable_sort_ascending: "sorted (map key (stable_sort key False xs))"
  by (simp add: stable_sort_def)

lemma stable_sort_descending: "sorted (rev (map key (stable_sort key True xs)))"
  by (simp add: stable_sort_def rev_map)

lemma stable_sort_stable:
  "filter (\<lambda>x. key x = k) (stable_sort key reverse xs) = filter (\<lambda>x. key x = k) xs"
  by (simp add: stable_sort_def sort_key_stable rev_filter[symmetric])

lemma get_all_trips_data_field:
  "get_all_trips inherited (Some ''destination'') reverse db = Inr (stable_sort destination reverse db)"
  "get_all_trips inherited (Some ''country'') reverse db = Inr (stable_sort country reverse db)"
  "get_all_trips inherited (Some ''travel_agency'') reverse db = Inr (stable_sort travel_agency reverse db)"
  "get_all_trips inherited (Some ''duration_days'') reverse db =
     Inr (stable_sort (\<lambda>x. of_int (duration_days x) :: rat) reverse db)"
  "get_all_trips inherited (Some ''price'') reverse db = Inr (stable_sort price reverse db)"
  "get_all_trips inherited (Some ''rating'') reverse db = Inr (stable_sort rating reverse db)"
  "get_all_trips inherited (Some ''group_size'') reverse db =
     Inr (stable_sort (\<lambda>x. of_int (group_size x) :: rat) reverse db)"
  by (simp_all add: get_all_trips_def getattr_Trip_def list_sort_def list_all_iff list_ex_iff
        stable_sort_short)

lemma get_all_trips_unsorted:
  "get_all_trips inherited None reverse db = Inr db"
  "get_all_trips inherited (Some []) reverse db = Inr db"
  by (simp_all add: get_all_trips_def)

subsection \<open>Routes\<close>

text \<open>
  C8, the failing input. \<open>GET /trips/search\<close> is served by the route
  \<open>/trips/{trip_id}\<close>, registered before \<open>/trips/search\<close>, with \<open>trip_id = search\<close>; no
  record has that id, so the answer is \<open>NotFound\<close>.
\<close>

theorem search_route_shadowed:
  "dispatch GET ''/trips/search'' = Some (Get_trip, [(''trip_id'', ''search'')])
   \<and> get_trip ''search'' two_trips = Inl NotFound"
  by (simp add: dispatch_def path_segments_def routes_def get_trip_def two_trips_eq)

text \<open>No request at all reaches \<open>search_trips\<close>.\<close>

lemma match_search_pattern:
  "match_path [Lit ''trips'', Lit ''search''] segs = Some ps \<Longrightarrow>
   match_path [Lit ''trips'', Param ''trip_id''] segs \<noteq> None"
  by (cases segs; cases "tl segs"; cases "tl (tl segs)") (auto split: if_splits)

lemma search_route_unreachable: "dispatch meth path \<noteq> Some (Search_trips, params)"
proof (cases "path_segments path")
  case None
  then show ?thesis by (simp add: dispatch_def)
next
  case (Some segs)
  show ?thesis
  proof (cases "match_path [Lit ''trips'', Param ''trip_id''] segs")
    case None
    then have "match_path [Lit ''trips'', Lit ''search''] segs = None"
      using match_search_pattern[of segs] by (cases "match_path [Lit ''trips'', Lit ''search''] segs") auto
    then show ?thesis using Some None
      by (cases meth) (auto simp: dispatch_def routes_def split: option.splits)
  next
    case (Some ps)
    then show ?thesis using \<open>path_segments path = Some segs\<close>
      by (cases meth) (auto simp: dispatch_def routes_def split: option.splits)
  qed
qed

subsection \<open>Invariants of the data model\<close>

lemma kept_or_fresh_refl: "kept_or_fresh W s s"
  by (auto simp: kept_or_fresh_def)

lemma kept_or_fresh_same_list:
  "trips_db s' = trips_db s \<Longrightarrow> uuid_calls s \<le> uuid_calls s' \<Longrightarrow> clock_calls s \<le> clock_calls s'
   \<Longrightarrow> kept_or_fresh W s s'"
  by (auto simp: kept_or_fresh_def)

lemma store_inv_same_list:
  "store_inv W s \<Longrightarrow> trips_db s' = trips_db s \<Longrightarrow> uuid_calls s \<le> uuid_calls s'
   \<Longrightarrow> clock_calls s \<le> clock_calls s' \<Longrightarrow> store_inv W s'"
  unfolding store_inv_def by (auto intro: less_le_trans) (meson less_le_trans)+

lemma store_inv_add:
  fixes trip_data :: Trip
  assumes ok: "world_ok W" and inv: "store_inv W s"
  defines "trip \<equiv> trip_data\<lparr>id' := Some (uuid4 W (uuid_calls s)),
                             created_at := Some (clock W (clock_calls s)),
                             updated_at := Some (clock W (clock_calls s))\<rparr>"
  defines "s' \<equiv> \<lparr>trips_db = trips_db s @ [trip], uuid_calls = Suc (uuid_calls s),
                  clock_calls = Suc (clock_calls s)\<rparr>"
  shows "store_inv W s'" and "kept_or_fresh W s s'"
proof -
  have inj: "inj (uuid4 W)" using ok by (simp add: world_ok_def)
  have fresh: "Some (uuid4 W (uuid_calls s)) \<notin> set (map id' (trips_db s))"
  proof
    assume "Some (uuid4 W (uuid_calls s)) \<in> set (map id' (trips_db s))"
    then obtain t where t: "t \<in> set (trips_db s)" "id' t = Some (uuid4 W (uuid_calls s))" by auto
    with inv obtain n where "n < uuid_calls s" "id' t = Some (uuid4 W n)"
      unfolding store_inv_def by blast
    with t(2) inj show False by (auto dest: injD)
  qed
  have d: "distinct (map id' (trips_db s'))"
    using inv fresh by (simp add: s'_def trip_def store_inv_def)
  have new: "(\<exists>n < uuid_calls s'. id' trip = Some (uuid4 W n))
          \<and> (\<exists>a b. a \<le> b \<and> b < clock_calls s'
                \<and> created_at trip = Some (clock W a) \<and> updated_at trip = Some (clock W b))"
    by (auto simp: s'_def trip_def)
  have old: "(\<exists>n < uuid_calls s'. id' t = Some (uuid4 W n))
          \<and> (\<exists>a b. a \<le> b \<and> b < clock_calls s'
                \<and> created_at t = Some (clock W a) \<and> updated_at t = Some (clock W b))"
    if "t \<in> set (trips_db s)" for t
  proof -
    from inv that obtain n a b where "n < uuid_calls s" "id' t = Some (uuid4 W n)"
      "a \<le> b" "b < clock_calls s" "created_at t = Some (clock W a)" "updated_at t = Some (clock W b)"
      unfolding store_inv_def by blast
    then show ?thesis
      by (intro conjI exI[of _ n] exI[of _ a] exI[of _ b]) (simp_all add: s'_def)
  qed
  show "store_inv W s'"
    unfolding store_inv_def using d new old by (auto simp: s'_def)
  show "kept_or_fresh W s s'"
    unfolding kept_or_fresh_def
    by (auto simp: s'_def trip_def)
qed

lemma kept_or_fresh_trans:
  assumes "kept_or_fresh W s s'" "kept_or_fresh W s' s''"
  shows "kept_or_fresh W s s''"
proof -
  have le: "uuid_calls s \<le> uuid_calls s'" "uuid_calls s' \<le> uuid_calls s''"
    "clock_calls s \<le> clock_calls s'" "clock_calls s' \<le> clock_calls s''"
    using assms by (simp_all add: kept_or_fresh_def)
  have "(\<exists>t \<in> set (trips_db s). id' t = id' t'' \<and> created_at t = created_at t'')
          \<or> (\<exists>n. uuid_calls s \<le> n \<and> n < uuid_calls s'' \<and> id' t'' = Some (uuid4 W n))"
    if t'': "t'' \<in> set (trips_db s'')" for t''
  proof -
    from assms(2) t'' consider
      (kept) t' where "t' \<in> set (trips_db s')" "id' t' = id' t''" "created_at t' = created_at t''"
      | (fresh) n where "uuid_calls s' \<le> n" "n < uuid_calls s''" "id' t'' = Some (uuid4 W n)"
      unfolding kept_or_fresh_def by blast
    then show ?thesis
    proof cases
      case kept
      from assms(1) kept(1) consider
        (kept2) t where "t \<in> set (trips_db s)" "id' t = id' t'" "created_at t = created_at t'"
        | (fresh2) n where "uuid_calls s \<le> n" "n < uuid_calls s'" "id' t' = Some (uuid4 W n)"
        unfolding kept_or_fresh_def by blast
      then show ?thesis
      proof cases
        case kept2
        with kept show ?thesis by auto
      next
        case fresh2
        with kept le show ?thesis by (intro disjI2 exI[of _ n]) auto
      qed
    next
      case fresh
      with le show ?thesis by (intro disjI2 exI[of _ n]) auto
    qed
  qed
  with le show ?thesis unfolding kept_or_fresh_def by auto
qed

lemma seed_loop_inv:
  "world_ok W \<Longrightarrow> store_inv W s \<Longrightarrow>
   store_inv W (seed_loop W seeds s) \<and> kept_or_fresh W s (seed_loop W seeds s)"
proof (induction seeds arbitrary: s)
  case Nil
  then show ?case by (simp add: kept_or_fresh_refl)
next
  case (Cons trip_data rest)
  let ?s' = "\<lparr>trips_db = trips_db s @ [trip_data\<lparr>id' := Some (uuid4 W (uuid_calls s)),
                             created_at := Some (clock W (clock_calls s)),
                             updated_at := Some (clock W (clock_calls s))\<rparr>],
              uuid_calls = Suc (uuid_calls s), clock_calls = Suc (clock_calls s)\<rparr>"
  have 1: "store_inv W ?s'" and 2: "kept_or_fresh W s ?s'"
    using store_inv_add[OF Cons.prems, of trip_data] by simp_all
  from Cons.IH[OF Cons.prems(1) 1]
  have "store_inv W (seed_loop W rest ?s')" "kept_or_fresh W ?s' (seed_loop W rest ?s')"
    by simp_all
  with 2 show ?case
    by (auto simp: Let_def intro: kept_or_fresh_trans)
qed

lemma initialize_database_inv:
  assumes "world_ok W"
  shows "store_inv W (initialize_database W s)" "kept_or_fresh W s (initialize_database W s)"
proof -
  let ?s0 = "s\<lparr>trips_db := []\<rparr>"
  have 0: "store_inv W ?s0" by (simp add: store_inv_def)
  have k0: "kept_or_fresh W s ?s0" by (simp add: kept_or_fresh_def)
  from seed_loop_inv[OF assms 0, of STATIC_TRIPS]
  show "store_inv W (initialize_database W s)"
    by (simp add: initialize_database_def)
  from seed_loop_inv[OF assms 0, of STATIC_TRIPS] k0
  show "kept_or_fresh W s (initialize_database W s)"
    by (auto simp: initialize_database_def intro: kept_or_fresh_trans)
qed

lemma store_inv_replace:
  assumes inv: "store_inv W s" and k: "k < length (trips_db s)"
    and r: "id' r = id' (trips_db s ! k)" "created_at r = created_at (trips_db s ! k)"
      "updated_at r = Some (clock W (clock_calls s))"
  defines "s' \<equiv> tick (s\<lparr>trips_db := (trips_db s)[k := r]\<rparr>)"
  shows "store_inv W s'" and "kept_or_fresh W s s'"
proof -
  let ?db = "trips_db s"
  have old_in: "?db ! k \<in> set ?db" using k by simp
  have ids: "map id' (?db[k := r]) = map id' ?db"
    using k r(1) by (simp add: map_update list_update_same_conv)
  have d: "distinct (map id' (trips_db s'))"
    using inv ids by (simp add: s'_def tick_def store_inv_def)
  from inv old_in obtain n a b where old: "n < uuid_calls s" "id' (?db ! k) = Some (uuid4 W n)"
      "a \<le> b" "b < clock_calls s" "created_at (?db ! k) = Some (clock W a)"
    unfolding store_inv_def by blast
  have new: "(\<exists>n < uuid_calls s'. id' r = Some (uuid4 W n))
          \<and> (\<exists>a b. a \<le> b \<and> b < clock_calls s'
                \<and> created_at r = Some (clock W a) \<and> updated_at r = Some (clock W b))"
    using old r
    by (intro conjI exI[of _ n] exI[of _ a] exI[of _ "clock_calls s"])
       (simp_all add: s'_def tick_def)
  have keep: "(\<exists>n < uuid_calls s'. id' t = Some (uuid4 W n))
          \<and> (\<exists>a b. a \<le> b \<and> b < clock_calls s'
                \<and> created_at t = Some (clock W a) \<and> updated_at t = Some (clock W b))"
    if "t \<in> set ?db" for t
  proof -
    from inv that obtain n a b where "n < uuid_calls s" "id' t = Some (uuid4 W n)"
      "a \<le> b" "b < clock_calls s" "created_at t = Some (clock W a)" "updated_at t = Some (clock W b)"
      unfolding store_inv_def by blast
    then show ?thesis
      by (intro conjI exI[of _ n] exI[of _ a] exI[of _ b]) (simp_all add: s'_def tick_def)
  qed
  have mem: "t = r \<or> t \<in> set ?db" if "t \<in> set (trips_db s')" for t
    using that set_update_subset_insert[of ?db k r] by (auto simp: s'_def tick_def)
  show "store_inv W s'"
    unfolding store_inv_def using d new keep mem by blast
  have "(\<exists>t \<in> set ?db. id' t = id' t' \<and> created_at t = created_at t')
          \<or> (\<exists>n. uuid_calls s \<le> n \<and> n < uuid_calls s' \<and> id' t' = Some (uuid4 W n))"
    if "t' \<in> set (trips_db s')" for t'
    using mem[OF that] old_in r by auto
  then show "kept_or_fresh W s s'"
    unfolding kept_or_fresh_def by (simp add: s'_def tick_def)
qed

lemma store_inv_delete:
  fixes k :: nat
  assumes inv: "store_inv W s"
  defines "s' \<equiv> s\<lparr>trips_db := take k (trips_db s) @ drop (Suc k) (trips_db s)\<rparr>"
  shows "store_inv W s'" and "kept_or_fresh W s s'"
proof -
  let ?db = "trips_db s"
  have sub: "set (trips_db s') \<subseteq> set ?db"
    using set_take_subset[of k ?db] set_drop_subset[of "Suc k" ?db] by (auto simp: s'_def)
  have "distinct (map id' ?db)" using inv by (simp add: store_inv_def)
  then have "distinct (take k (map id' ?db) @ drop (Suc k) (map id' ?db))"
    using set_take_disj_set_drop_if_distinct[of "map id' ?db" k "Suc k"]
    by (simp add: distinct_take distinct_drop)
  then have d: "distinct (map id' (trips_db s'))"
    by (simp add: s'_def take_map drop_map)
  show "store_inv W s'"
    unfolding store_inv_def
  proof (intro conjI ballI)
    show "distinct (map id' (trips_db s'))" by (rule d)
  next
    fix t assume "t \<in> set (trips_db s')"
    with sub have "t \<in> set ?db" by blast
    with inv show "\<exists>n<uuid_calls s'. id' t = Some (uuid4 W n)"
      unfolding store_inv_def by (simp add: s'_def)
  next
    fix t assume "t \<in> set (trips_db s')"
    with sub have "t \<in> set ?db" by blast
    with inv show "\<exists>a b. a \<le> b \<and> b < clock_calls s'
                \<and> created_at t = Some (clock W a) \<and> updated_at t = Some (clock W b)"
      unfolding store_inv_def by (simp add: s'_def)
  qed
  show "kept_or_fresh W s s'"
    unfolding kept_or_fresh_def using sub by (auto simp: s'_def)
qed

lemma patch_keeps_identity:
  assumes "accepts_own_types V"
    and "Trip_validate V ((patch_loop m (Trip_dict old))(''updated_at'' \<mapsto> PStr now)) = Some r"
  shows "id' r = id' old" "created_at r = created_at old" "updated_at r = Some now"
proof -
  let ?d = "(patch_loop m (Trip_dict old))(''updated_at'' \<mapsto> PStr now)"
  have u: "optional_str V (Some (PStr now)) = Some (Some now)"
    using optional_str_opt_val[OF assms(1), of "Some now"] by (simp add: opt_val_def)
  have 1: "optional_str V (?d ''id'') = Some (id' old)"
    by (simp only: merged_fields optional_str_opt_val[OF assms(1)])
  have 2: "optional_str V (?d ''created_at'') = Some (created_at old)"
    by (simp only: merged_fields optional_str_opt_val[OF assms(1)])
  have 3: "optional_str V (?d ''updated_at'') = Some (Some now)"
    by (simp only: merged_fields u)
  from assms(2) obtain dest ctry agency days pr rt gs where
    "r = \<lparr>id' = id' old, destination = dest, country = ctry, travel_agency = agency,
           duration_days = days, price = pr, rating = rt, group_size = gs,
           created_at = created_at old, updated_at = Some now\<rparr>"
    unfolding Trip_validate_def 1 2 3
    by (auto simp: bind_eq_Some_conv)
  then show "id' r = id' old" "created_at r = created_at old" "updated_at r = Some now"
    by simp_all
qed

lemma update_trip_cases:
  obtains (missing) "update_trip i t now db = (Inl NotFound, db)"
  | (found) k r where "k < length db" "update_trip i t now db = (Inr r, db[k := r])"
      "id' r = id' (db ! k)" "created_at r = created_at (db ! k)" "updated_at r = Some now"
proof (cases "\<exists>t \<in> set db. id' t = Some i")
  case False
  then have "find_trip_index db i = - 1" by (intro find_trip_index_absent) blast
  then have "update_trip i t now db = (Inl NotFound, db)" by (simp add: update_trip_def)
  then show ?thesis by (rule missing)
next
  case True
  then obtain k where k: "k < length db" "find_trip_index db i = int k" "id' (db ! k) = Some i"
    by (rule find_trip_index_present)
  let ?r = "t\<lparr>id' := Some i, created_at := created_at (db ! k), updated_at := Some now\<rparr>"
  have "update_trip i t now db = (Inr ?r, db[k := ?r])"
    using k(2) by (simp add: update_trip_def Let_def)
  with k(1) show ?thesis by (rule found[of k ?r]) (simp_all add: k(3))
qed

lemma patch_trip_cases:
  assumes "accepts_own_types V"
  obtains (failed) e where "patch_trip V i m now db = (Inl e, db)"
  | (found) k r where "k < length db" "patch_trip V i m now db = (Inr r, db[k := r])"
      "id' r = id' (db ! k)" "created_at r = created_at (db ! k)" "updated_at r = Some now"
proof (cases "\<exists>t \<in> set db. id' t = Some i")
  case False
  then have "find_trip_index db i = - 1" by (intro find_trip_index_absent) blast
  then have "patch_trip V i m now db = (Inl NotFound, db)" by (simp add: patch_trip_def)
  then show ?thesis by (rule failed)
next
  case True
  then obtain k where k: "k < length db" "find_trip_index db i = int k"
    by (rule find_trip_index_present)
  note pt = patch_trip_found[OF k, of V m now]
  show ?thesis
  proof (cases "Trip_validate V ((patch_loop m (Trip_dict (db ! k)))(''updated_at'' \<mapsto> PStr now))")
    case None
    then have "patch_trip V i m now db = (Inl ValidationError, db)" unfolding pt by simp
    then show ?thesis by (rule failed)
  next
    case (Some r)
    then have "patch_trip V i m now db = (Inr r, db[k := r])" unfolding pt by simp
    with k(1) show ?thesis
      using patch_keeps_identity[OF assms Some] by (rule found)
  qed
qed

lemma delete_trip_cases:
  obtains (missing) "delete_trip i db = (Inl NotFound, db)"
  | (found) k where "k < length db"
      "delete_trip i db = (Inr (db ! k), take k db @ drop (Suc k) db)"
proof (cases "\<exists>t \<in> set db. id' t = Some i")
  case False
  then have "find_trip_index db i = - 1" by (intro find_trip_index_absent) blast
  then have "delete_trip i db = (Inl NotFound, db)" by (simp add: delete_trip_def)
  then show ?thesis by (rule missing)
next
  case True
  then obtain k where k: "k < length db" "find_trip_index db i = int k"
    by (rule find_trip_index_present)
  then have "delete_trip i db = (Inr (db ! k), take k db @ drop (Suc k) db)"
    by (simp add: delete_trip_def Let_def)
  with k(1) show ?thesis by (rule found)
qed

lemma tick_inv: "store_inv W s \<Longrightarrow> store_inv W (tick s)"
  by (erule store_inv_same_list) (simp_all add: tick_def)

lemma tick_kept: "kept_or_fresh W s (tick s)"
  by (rule kept_or_fresh_same_list) (simp_all add: tick_def)

lemma step_inv:
  assumes ok: "world_ok W" and inv: "store_inv W s"
  shows "store_inv W (snd (step W req s)) \<and> kept_or_fresh W s (snd (step W req s))"
proof (cases req)
  case StartupEvent
  then show ?thesis using initialize_database_inv[OF ok, of s] by (simp add: step_def)
next
  case GetRoot
  then show ?thesis using inv by (simp add: step_def kept_or_fresh_refl)
next
  case (GetAllTrips sort_by reverse)
  then show ?thesis using inv
    by (auto simp: step_def kept_or_fresh_refl split: sum.splits)
next
  case (GetTrip i)
  then show ?thesis using inv
    by (auto simp: step_def kept_or_fresh_refl tick_inv tick_kept split: sum.splits)
next
  case (PostTrip body)
  show ?thesis
  proof (cases "body_Trip (validation W) body")
    case (Inl e)
    then show ?thesis using PostTrip inv by (simp add: step_def kept_or_fresh_refl)
  next
    case (Inr trip)
    then show ?thesis using PostTrip store_inv_add[OF ok inv, of trip]
      by (simp add: step_def create_trip_def Let_def)
  qed
next
  case (PutTrip i body)
  show ?thesis
  proof (cases "body_Trip (validation W) body")
    case (Inl e)
    then show ?thesis using PutTrip inv by (simp add: step_def kept_or_fresh_refl)
  next
    case (Inr trip)
    show ?thesis
    proof (cases i trip "clock W (clock_calls s)" "trips_db s" rule: update_trip_cases)
      case missing
      then show ?thesis using PutTrip Inr inv
        by (simp add: step_def tick_inv tick_kept)
    next
      case (found k r)
      then show ?thesis using PutTrip Inr store_inv_replace[OF inv found(1,3,4,5)]
        by (simp add: step_def)
    qed
  qed
next
  case (PatchTrip i body)
  have acc: "accepts_own_types (validation W)" using ok by (simp add: world_ok_def)
  show ?thesis
  proof (cases "\<exists>m. body = PDict m")
    case False
    then show ?thesis using PatchTrip inv
      by (cases body) (simp_all add: step_def kept_or_fresh_refl)
  next
    case True
    then obtain m where m: "body = PDict m" by blast
    show ?thesis
    proof (cases i m "clock W (clock_calls s)" "trips_db s" rule: patch_trip_cases[OF acc, case_names failed found])
      case (failed e)
      then show ?thesis using PatchTrip m inv
        by (simp add: step_def tick_inv tick_kept)
    next
      case (found k r)
      then show ?thesis using PatchTrip m store_inv_replace[OF inv found(1,3,4,5)]
        by (simp add: step_def)
    qed
  qed
next
  case (DeleteTrip i)
  show ?thesis
  proof (cases i "trips_db s" rule: delete_trip_cases)
    case missing
    then show ?thesis using DeleteTrip inv
      by (simp add: step_def tick_inv tick_kept)
  next
    case (found k)
    then show ?thesis using DeleteTrip store_inv_delete[OF inv, of k]
      by (simp add: step_def)
  qed
next
  case GetStatistics
  then show ?thesis using inv
    by (auto simp: step_def kept_or_fresh_refl tick_inv tick_kept split: sum.splits stats_response.splits)
next
  case (SearchTrips a b c d e)
  then show ?thesis using inv by (simp add: step_def kept_or_fresh_refl)
next
  case HealthCheck
  then show ?thesis using inv by (simp add: step_def tick_inv tick_kept)
qed

lemma run_append: "run W (a @ b) s = run W b (run W a s)"
  by (induction a arbitrary: s) simp_all

lemma run_inv:
  "world_ok W \<Longrightarrow> store_inv W s \<Longrightarrow>
   store_inv W (run W reqs s) \<and> kept_or_fresh W s (run W reqs s)"
proof (induction reqs arbitrary: s)
  case Nil
  then show ?case by (simp add: kept_or_fresh_refl)
next
  case (Cons req reqs)
  from step_inv[OF Cons.prems, of req]
  have 1: "store_inv W (snd (step W req s))" and 2: "kept_or_fresh W s (snd (step W req s))"
    by simp_all
  from Cons.IH[OF Cons.prems(1) 1] 2 show ?case
    by (auto intro: kept_or_fresh_trans)
qed

lemma initial_state_inv: "store_inv W initial_state"
  by (simp add: store_inv_def initial_state_def)

lemma store_inv_ordered:
  assumes "world_ok W" "store_inv W s" "t \<in> set (trips_db s)"
  shows "\<exists>c u. created_at t = Some c \<and> updated_at t = Some u \<and> c \<le> u"
proof -
  from assms(2,3) obtain a b where "a \<le> b" "created_at t = Some (clock W a)"
    "updated_at t = Some (clock W b)"
    unfolding store_inv_def by blast
  moreover have "mono (clock W)" using assms(1) by (simp add: world_ok_def)
  ultimately show ?thesis by (auto dest: monoD)
qed

lemma later_same_id:
  assumes ok: "world_ok W" and inv: "store_inv W s" and k: "kept_or_fresh W s s'"
    and t: "t \<in> set (trips_db s)" and t': "t' \<in> set (trips_db s')" and eq: "id' t' = id' t"
  shows "created_at t' = created_at t"
proof -
  have inj: "inj (uuid4 W)" using ok by (simp add: world_ok_def)
  from inv t obtain n where n: "n < uuid_calls s" "id' t = Some (uuid4 W n)"
    unfolding store_inv_def by blast
  from k t' consider
    (kept) x where "x \<in> set (trips_db s)" "id' x = id' t'" "created_at x = created_at t'"
    | (fresh) m where "uuid_calls s \<le> m" "id' t' = Some (uuid4 W m)"
    unfolding kept_or_fresh_def by blast
  then show ?thesis
  proof cases
    case kept
    have "inj_on id' (set (trips_db s))"
      using inv by (simp add: store_inv_def distinct_map)
    with kept(1,2) t eq have "x = t" by (auto dest: inj_onD)
    with kept(3) show ?thesis by simp
  next
    case fresh
    with n eq inj have "m = n" by (auto dest: injD)
    with fresh(1) n(1) show ?thesis by simp
  qed
qed

lemma gone_stays_gone:
  assumes ok: "world_ok W" and inv: "store_inv W s1"
    and k12: "kept_or_fresh W s1 s2" and k23: "kept_or_fresh W s2 s3"
    and t: "t \<in> set (trips_db s1)" and gone: "id' t \<notin> id' ` set (trips_db s2)"
  shows "id' t \<notin> id' ` set (trips_db s3)"
proof
  assume "id' t \<in> id' ` set (trips_db s3)"
  then obtain t3 where t3: "t3 \<in> set (trips_db s3)" "id' t3 = id' t" by auto
  have inj: "inj (uuid4 W)" using ok by (simp add: world_ok_def)
  from inv t obtain n where n: "n < uuid_calls s1" "id' t = Some (uuid4 W n)"
    unfolding store_inv_def by blast
  have le: "uuid_calls s1 \<le> uuid_calls s2" using k12 by (simp add: kept_or_fresh_def)
  from k23 t3(1) consider
    (kept) x where "x \<in> set (trips_db s2)" "id' x = id' t3"
    | (fresh) m where "uuid_calls s2 \<le> m" "id' t3 = Some (uuid4 W m)"
    unfolding kept_or_fresh_def by blast
  then show False
  proof cases
    case kept
    from kept(2) t3(2) have "id' t = id' x" by simp
    then have "id' t \<in> id' ` set (trips_db s2)" using kept(1) by (rule image_eqI)
    with gone show False by contradiction
  next
    case fresh
    with n t3(2) inj have "m = n" by (auto dest: injD)
    with fresh(1) n(1) le show False by simp
  qed
qed

text \<open>
  C6, as amended. Let the environment never generate an identifier twice, let
  its clock never run backwards, and let validation keep values of the declared
  types. Let \<open>s1\<close> be the state after any sequence of requests from the initial
  state (start-up, listing, lookup, creation, replacement, partial update,
  deletion, search, statistics, in any order), \<open>s2\<close> a state after further
  requests and \<open>s3\<close> a state after still further ones. Then the ids of the
  records of \<open>s1\<close> are pairwise distinct; every record of \<open>s1\<close> has both timestamps
  with \<open>created_at \<le> updated_at\<close>; a record of \<open>s2\<close> with the id of a record of \<open>s1\<close>
  has the same \<open>created_at\<close>; and an id of \<open>s1\<close> that is absent from \<open>s2\<close> is absent
  from \<open>s3\<close> too.
\<close>

theorem data_model_invariants:
  assumes "world_ok W"
  shows "let s1 = run W reqs1 initial_state; s2 = run W reqs2 s1; s3 = run W reqs3 s2 in
      distinct (map id' (trips_db s1))
    \<and> (\<forall>t \<in> set (trips_db s1). \<exists>c u. created_at t = Some c \<and> updated_at t = Some u \<and> c \<le> u)
    \<and> (\<forall>t1 \<in> set (trips_db s1). \<forall>t2 \<in> set (trips_db s2).
          id' t2 = id' t1 \<longrightarrow> created_at t2 = created_at t1)
    \<and> (\<forall>t1 \<in> set (trips_db s1).
          id' t1 \<notin> id' ` set (trips_db s2) \<longrightarrow> id' t1 \<notin> id' ` set (trips_db s3))"
proof -
  define s1 where "s1 = run W reqs1 initial_state"
  define s2 where "s2 = run W reqs2 s1"
  define s3 where "s3 = run W reqs3 s2"
  have i1: "store_inv W s1"
    unfolding s1_def using run_inv[OF assms initial_state_inv] by simp
  have i2: "store_inv W s2" and k12: "kept_or_fresh W s1 s2"
    unfolding s2_def using run_inv[OF assms i1] by simp_all
  have k23: "kept_or_fresh W s2 s3"
    unfolding s3_def using run_inv[OF assms i2] by simp
  have a: "distinct (map id' (trips_db s1))" using i1 by (simp add: store_inv_def)
  have b: "\<forall>t \<in> set (trips_db s1). \<exists>c u. created_at t = Some c \<and> updated_at t = Some u \<and> c \<le> u"
    using store_inv_ordered[OF assms i1] by blast
  have c: "\<forall>t1 \<in> set (trips_db s1). \<forall>t2 \<in> set (trips_db s2).
          id' t2 = id' t1 \<longrightarrow> created_at t2 = created_at t1"
    using later_same_id[OF assms i1 k12] by blast
  have d: "\<forall>t1 \<in> set (trips_db s1).
          id' t1 \<notin> id' ` set (trips_db s2) \<longrightarrow> id' t1 \<notin> id' ` set (trips_db s3)"
    using gone_stays_gone[OF assms i1 k12 k23] by blast
  from a b c d show ?thesis
    unfolding Let_def s1_def s2_def s3_def by (intro conjI)
qed

lemma replicate_le_replicate: "m \<le> n \<Longrightarrow> replicate m (c :: char) \<le> replicate n c"
proof (induction m arbitrary: n)
  case 0
  then show ?case by simp
next
  case (Suc m)
  then obtain n' where "n = Suc n'" "m \<le> n'" by (cases n) auto
  with Suc.IH[of n'] show ?case by simp
qed

lemma demo_world_ok: "world_ok demo_world"
proof -
  have "inj (\<lambda>n. replicate (Suc n) CHR ''u'')"
    by (rule injI) (drule arg_cong[where f = length], simp)
  moreover have "mono (\<lambda>n. replicate (Suc n) CHR ''1'')"
    by (rule monoI) (rule replicate_le_replicate, simp)
  ultimately show ?thesis
    by (simp add: world_ok_def demo_world_def exact_validators_accept)
qed

theorem data_model_invariants_witness:
  "world_ok demo_world
   \<and> distinct (map id' (trips_db (run demo_world [StartupEvent, DeleteTrip ''u''] initial_state)))
   \<and> map id' (trips_db (run demo_world [StartupEvent, DeleteTrip ''u''] initial_state))
       = [Some ''uu'', Some ''uuu'', Some ''uuuu'', Some ''uuuuu'']"
proof -
  note ok = demo_world_ok
  from data_model_invariants[OF ok, of "[StartupEvent, DeleteTrip ''u'']" "[]" "[]"]
  have "distinct (map id' (trips_db (run demo_world [StartupEvent, DeleteTrip ''u''] initial_state)))"
    unfolding Let_def by (rule conjunct1)
  moreover have "map id' (trips_db (run demo_world [StartupEvent, DeleteTrip ''u''] initial_state))
       = [Some ''uu'', Some ''uuu'', Some ''uuuu'', Some ''uuuuu'']"
    by (simp add: step_def demo_world_def initialize_database_def Let_def STATIC_TRIPS_def
          delete_trip_def find_trip_index_def initial_state_def)
  ultimately show ?thesis using ok by (intro conjI)
qed

text \<open>
  C6 as stated holds for no environment whose clock may be set back:
  \<open>get_current_time\<close> reads the wall clock, a record created at 02:30 and
  patched after the clock went back to 02:10 has \<open>updated_at < created_at\<close>.
\<close>

lemma post_example:
  "step stepped_back_world (PostTrip example_body) initial_state =
     (Inr (OneTrip \<lparr>id' = Some ''u'', destination = ''Rome'', country = ''Italy'',
             travel_agency = ''Agency'', duration_days = 5, price = 1000, rating = 9 / 2,
             group_size = 10, created_at = Some ''2024-10-27T02:30:00'',
             updated_at = Some ''2024-10-27T02:30:00''\<rparr>),
      \<lparr>trips_db = [\<lparr>id' = Some ''u'', destination = ''Rome'', country = ''Italy'',
             travel_agency = ''Agency'', duration_days = 5, price = 1000, rating = 9 / 2,
             group_size = 10, created_at = Some ''2024-10-27T02:30:00'',
             updated_at = Some ''2024-10-27T02:30:00''\<rparr>],
       uuid_calls = 1, clock_calls = 1\<rparr>)"
  by (simp add: step_def stepped_back_world_def demo_world_def example_body_def initial_state_def
        body_Trip_def Trip_validate_def dict_get_def required_def optional_str_def
        exact_validators_def create_trip_def Let_def)

theorem clock_stepped_back_counterexample:
  "map (\<lambda>t. (created_at t, updated_at t))
     (trips_db (run stepped_back_world [PostTrip example_body, PatchTrip ''u'' (PDict [])] initial_state))
     = [(Some ''2024-10-27T02:30:00'', Some ''2024-10-27T02:10:00'')]
   \<and> ''2024-10-27T02:10:00'' < ''2024-10-27T02:30:00''"
  by (simp add: post_example)
     (simp add: step_def stepped_back_world_def demo_world_def tick_def patch_trip_def
        find_trip_index_def Trip_dict_def Trip_init_def Trip_validate_def required_def
        optional_str_def exact_validators_def opt_val_def Let_def)

end
